theory Spec2Isabelle
  imports Main "HOL-Library.Word"
begin

unbundle bit_operations_syntax

section \<open>Core types (core/types.hpp)\<close>

text \<open>
  The integer aliases of the source keep their widths: every counter and cycle is an
  unsigned machine word, so \<open>+\<close> and \<open>-\<close> wrap as they do in C++.
\<close>

type_synonym Cycle = "64 word"
type_synonym Address = "64 word"
type_synonym Row = "32 word"
type_synonym Column = "16 word"
type_synonym Bank = "8 word"
type_synonym BankGroup = "8 word"
type_synonym Channel = "8 word"
type_synonym Rank = "8 word"
type_synonym RequestId = "64 word"

datatype RequestType = READ | WRITE

datatype Priority = LOW | NORMAL | HIGH | REALTIME

datatype BankState =
  IDLE | ACTIVATING | ACTIVE | READING | WRITING | PRECHARGING | REFRESHING

text \<open>
  A completion callback is an opaque \<open>std::function\<close>. It is modelled by a handle
  (a number naming the caller's function); \<open>None\<close> is the null callback. Invoking a
  callback appends the pair of handle and latency to the list of invocations an operation
  returns.
\<close>

type_synonym CompletionCallback = "nat option"
type_synonym Invocation = "nat \<times> Cycle"

record Request =
  req_id :: RequestId
  address :: Address
  req_size :: "32 word"
  req_type :: RequestType
  priority :: Priority
  submit_cycle :: Cycle
  callback :: CompletionCallback
  channel :: Channel
  rank :: Rank
  bank_group :: BankGroup
  bank :: Bank
  row :: Row
  column :: Column

text \<open>\<open>Request{}\<close>: the default member initialisers.\<close>

definition Request_default :: Request where
  "Request_default =
     \<lparr>req_id = 0, address = 0, req_size = 0, req_type = READ, priority = NORMAL,
      submit_cycle = 0, callback = None, channel = 0, rank = 0, bank_group = 0,
      bank = 0, row = 0, column = 0\<rparr>"

text \<open>
  Indexing a \<open>std::vector\<close> out of range is undefined behaviour in the source. The
  model makes it a value: every operation that indexes returns \<open>Inl VectorIndexOutOfRange\<close>
  there and \<open>Inr\<close> of its result otherwise. \<open>DestroyedCallbackCall\<close> is the end of a
  run in the call of a callback that was read from a destroyed request (see the
  cycle-accurate controller).
\<close>

datatype fault = VectorIndexOutOfRange | DestroyedCallbackCall

section \<open>Scheduler configuration (interface/scheduler.hpp)\<close>

record SchedulerConfig =
  buffer_size :: "32 word"
  num_banks :: "8 word"

section \<open>FR-FCFS scheduler (scheduler/fr_fcfs.hpp)\<close>

text \<open>
  The buffers hold pointers to requests in the source, and \<open>store\<close> keeps the address
  of the request it is given. The model holds, for each pointer, the request it refers to,
  one list per bank in arrival order (\<open>push_back\<close> appends). That is what the scheduler
  reads as long as the caller of \<open>store\<close> keeps the request alive, and it is the model of
  the three scheduler classes. The cycle-accurate controller does not keep its requests
  alive; what its scheduler reads then is modelled with the controller.
\<close>

record FrFcfsScheduler =
  config_s :: SchedulerConfig
  buffers :: "Request list list"
  buffer_depths :: "32 word list"
  total_occupancy :: "64 word"
  requests_selected :: "64 word"
  row_hits :: "64 word"

definition FrFcfsScheduler_new :: "SchedulerConfig \<Rightarrow> FrFcfsScheduler" where
  "FrFcfsScheduler_new cfg =
     \<lparr>config_s = cfg,
      buffers = replicate (unat (num_banks cfg)) [],
      buffer_depths = replicate (unat (num_banks cfg)) 0,
      total_occupancy = 0, requests_selected = 0, row_hits = 0\<rparr>"

definition has_space :: "FrFcfsScheduler \<Rightarrow> 32 word \<Rightarrow> bool" where
  "has_space s count \<longleftrightarrow>
     total_occupancy s + ucast count \<le> ucast (buffer_size (config_s s))"

definition store :: "FrFcfsScheduler \<Rightarrow> Request \<Rightarrow> fault + FrFcfsScheduler" where
  "store s request =
     (let b = unat (bank request) in
      if b < length (buffers s) \<and> b < length (buffer_depths s) then
        Inr (s\<lparr>buffers := (buffers s)[b := buffers s ! b @ [request]],
               buffer_depths := (buffer_depths s)[b := buffer_depths s ! b + 1],
               total_occupancy := total_occupancy s + 1\<rparr>)
      else Inl VectorIndexOutOfRange)"

text \<open>
  The erase loop of \<open>remove\<close>: the first entry with the request's id leaves the list.
  \<open>None\<close> when no entry has that id (the source then changes nothing).
\<close>

fun erase_first :: "RequestId \<Rightarrow> Request list \<Rightarrow> Request list option" where
  "erase_first i [] = None"
| "erase_first i (r # rs) =
     (if req_id r = i then Some rs
      else (case erase_first i rs of None \<Rightarrow> None | Some rs' \<Rightarrow> Some (r # rs')))"

definition remove :: "FrFcfsScheduler \<Rightarrow> Request \<Rightarrow> fault + FrFcfsScheduler" where
  "remove s request =
     (let b = unat (bank request) in
      if b < length (buffers s) then
        (case erase_first (req_id request) (buffers s ! b) of
           None \<Rightarrow> Inr s
         | Some buffer' \<Rightarrow>
             if b < length (buffer_depths s) then
               Inr (s\<lparr>buffers := (buffers s)[b := buffer'],
                      buffer_depths := (buffer_depths s)[b := buffer_depths s ! b - 1],
                      total_occupancy := total_occupancy s - 1\<rparr>)
             else Inl VectorIndexOutOfRange)
      else Inl VectorIndexOutOfRange)"

definition occupancy :: "FrFcfsScheduler \<Rightarrow> 64 word" where
  "occupancy s = total_occupancy s"

text \<open>The row-hit scan of \<open>get_next\<close>: the first request, in arrival order, on the row.\<close>

fun first_row_hit :: "Row \<Rightarrow> Request list \<Rightarrow> Request option" where
  "first_row_hit r [] = None"
| "first_row_hit r (req # rest) =
     (if row req = r then Some req else first_row_hit r rest)"

text \<open>
  \<open>get_next\<close> is \<open>const\<close> in the source but counts its selections through
  \<open>const_cast\<close>, so the model returns the scheduler with the counters updated.
  \<open>None\<close> is the null pointer.
\<close>

definition get_next ::
  "FrFcfsScheduler \<Rightarrow> Bank \<Rightarrow> Row option \<Rightarrow> RequestType
     \<Rightarrow> fault + (Request option \<times> FrFcfsScheduler)" where
  "get_next s bk open_row last_cmd =
     (if unat bk < length (buffers s) then
        (let buffer = buffers s ! unat bk in
         if buffer = [] then Inr (None, s)
         else
           (case (case open_row of None \<Rightarrow> None | Some r \<Rightarrow> first_row_hit r buffer) of
              Some req \<Rightarrow>
                Inr (Some req, s\<lparr>requests_selected := requests_selected s + 1,
                                  row_hits := row_hits s + 1\<rparr>)
            | None \<Rightarrow>
                Inr (Some (hd buffer), s\<lparr>requests_selected := requests_selected s + 1\<rparr>)))
      else Inl VectorIndexOutOfRange)"

definition has_pending :: "FrFcfsScheduler \<Rightarrow> Bank \<Rightarrow> RequestType \<Rightarrow> fault + bool" where
  "has_pending s bk ty =
     (if unat bk < length (buffers s) then Inr (length (buffers s ! unat bk) \<ge> 2)
      else Inl VectorIndexOutOfRange)"

definition has_any_pending :: "FrFcfsScheduler \<Rightarrow> bool" where
  "has_any_pending s \<longleftrightarrow> total_occupancy s > 0"

section \<open>FIFO scheduler (scheduler/fifo.hpp)\<close>

record FifoScheduler =
  fifo_config :: SchedulerConfig
  fifo_buffers :: "Request list list"
  fifo_buffer_depths :: "32 word list"
  fifo_total_occupancy :: "64 word"
  fifo_requests_selected :: "64 word"

definition FifoScheduler_new :: "SchedulerConfig \<Rightarrow> FifoScheduler" where
  "FifoScheduler_new cfg =
     \<lparr>fifo_config = cfg,
      fifo_buffers = replicate (unat (num_banks cfg)) [],
      fifo_buffer_depths = replicate (unat (num_banks cfg)) 0,
      fifo_total_occupancy = 0, fifo_requests_selected = 0\<rparr>"

definition fifo_store :: "FifoScheduler \<Rightarrow> Request \<Rightarrow> fault + FifoScheduler" where
  "fifo_store s request =
     (let b = unat (bank request) in
      if b < length (fifo_buffers s) \<and> b < length (fifo_buffer_depths s) then
        Inr (s\<lparr>fifo_buffers := (fifo_buffers s)[b := fifo_buffers s ! b @ [request]],
               fifo_buffer_depths :=
                 (fifo_buffer_depths s)[b := fifo_buffer_depths s ! b + 1],
               fifo_total_occupancy := fifo_total_occupancy s + 1\<rparr>)
      else Inl VectorIndexOutOfRange)"

definition fifo_get_next ::
  "FifoScheduler \<Rightarrow> Bank \<Rightarrow> Row option \<Rightarrow> RequestType
     \<Rightarrow> fault + (Request option \<times> FifoScheduler)" where
  "fifo_get_next s bk open_row last_cmd =
     (if unat bk < length (fifo_buffers s) then
        (let buffer = fifo_buffers s ! unat bk in
         if buffer = [] then Inr (None, s)
         else Inr (Some (hd buffer),
                   s\<lparr>fifo_requests_selected := fifo_requests_selected s + 1\<rparr>))
      else Inl VectorIndexOutOfRange)"

definition fifo_has_pending :: "FifoScheduler \<Rightarrow> Bank \<Rightarrow> RequestType \<Rightarrow> fault + bool" where
  "fifo_has_pending s bk ty =
     (if unat bk < length (fifo_buffers s)
      then Inr (length (fifo_buffers s ! unat bk) \<ge> 2)
      else Inl VectorIndexOutOfRange)"

section \<open>FR-FCFS with read/write grouping (scheduler/fr_fcfs_grp.hpp)\<close>

record FrFcfsGrpScheduler =
  grp_config :: SchedulerConfig
  grp_buffers :: "Request list list"
  grp_buffer_depths :: "32 word list"
  grp_total_occupancy :: "64 word"
  grp_last_command :: RequestType
  grp_requests_selected :: "64 word"
  grp_row_hits :: "64 word"
  grp_grouping_decisions :: "64 word"

definition FrFcfsGrpScheduler_new :: "SchedulerConfig \<Rightarrow> FrFcfsGrpScheduler" where
  "FrFcfsGrpScheduler_new cfg =
     \<lparr>grp_config = cfg,
      grp_buffers = replicate (unat (num_banks cfg)) [],
      grp_buffer_depths = replicate (unat (num_banks cfg)) 0,
      grp_total_occupancy = 0, grp_last_command = READ,
      grp_requests_selected = 0, grp_row_hits = 0, grp_grouping_decisions = 0\<rparr>"

definition grp_store :: "FrFcfsGrpScheduler \<Rightarrow> Request \<Rightarrow> fault + FrFcfsGrpScheduler" where
  "grp_store s request =
     (let b = unat (bank request) in
      if b < length (grp_buffers s) \<and> b < length (grp_buffer_depths s) then
        Inr (s\<lparr>grp_buffers := (grp_buffers s)[b := grp_buffers s ! b @ [request]],
               grp_buffer_depths :=
                 (grp_buffer_depths s)[b := grp_buffer_depths s ! b + 1],
               grp_total_occupancy := grp_total_occupancy s + 1\<rparr>)
      else Inl VectorIndexOutOfRange)"

definition grp_remove :: "FrFcfsGrpScheduler \<Rightarrow> Request \<Rightarrow> fault + FrFcfsGrpScheduler" where
  "grp_remove s request =
     (let b = unat (bank request) in
      if b < length (grp_buffers s) then
        (let s1 = s\<lparr>grp_last_command := req_type request\<rparr> in
         case erase_first (req_id request) (grp_buffers s1 ! b) of
           None \<Rightarrow> Inr s1
         | Some buffer' \<Rightarrow>
             if b < length (grp_buffer_depths s1) then
               Inr (s1\<lparr>grp_buffers := (grp_buffers s1)[b := buffer'],
                       grp_buffer_depths :=
                         (grp_buffer_depths s1)[b := grp_buffer_depths s1 ! b - 1],
                       grp_total_occupancy := grp_total_occupancy s1 - 1\<rparr>)
             else Inl VectorIndexOutOfRange)
      else Inl VectorIndexOutOfRange)"

text \<open>Step 1 of \<open>get_next\<close>: the requests on the open row, in arrival order.\<close>

fun row_hits_of :: "Row \<Rightarrow> Request list \<Rightarrow> Request list" where
  "row_hits_of r [] = []"
| "row_hits_of r (req # rest) =
     (if row req = r then req # row_hits_of r rest else row_hits_of r rest)"

text \<open>
  \<open>has_address_hazard candidates target\<close> walks the candidates up to the target (found
  by pointer equality) and reports a candidate before it with the target's address. The
  model passes the candidates that stand before the target, which is what the walk visits.
\<close>

fun has_address_hazard :: "Request list \<Rightarrow> Request \<Rightarrow> bool" where
  "has_address_hazard [] target = False"
| "has_address_hazard (req # earlier) target =
     (if address req = address target then True else has_address_hazard earlier target)"

text \<open>
  Steps 2 and 3: the loop over the row hits. \<open>earlier\<close> holds the row hits already
  passed, in arrival order.
\<close>

fun same_type_hit :: "RequestType \<Rightarrow> Request list \<Rightarrow> Request list \<Rightarrow> Request option" where
  "same_type_hit last_command earlier [] = None"
| "same_type_hit last_command earlier (req # rest) =
     (if req_type req = last_command \<and> \<not> has_address_hazard earlier req then Some req
      else same_type_hit last_command (earlier @ [req]) rest)"

definition grp_get_next ::
  "FrFcfsGrpScheduler \<Rightarrow> Bank \<Rightarrow> Row option \<Rightarrow> RequestType
     \<Rightarrow> fault + (Request option \<times> FrFcfsGrpScheduler)" where
  "grp_get_next s bk open_row last_cmd =
     (if unat bk < length (grp_buffers s) then
        (let buffer = grp_buffers s ! unat bk;
             fcfs = Inr (Some (hd buffer),
                         s\<lparr>grp_requests_selected := grp_requests_selected s + 1\<rparr>) in
         if buffer = [] then Inr (None, s)
         else
           (case open_row of
              None \<Rightarrow> fcfs
            | Some r \<Rightarrow>
                (let hits = row_hits_of r buffer in
                 if hits \<noteq> [] then
                   (case same_type_hit (grp_last_command s) [] hits of
                      Some req \<Rightarrow>
                        Inr (Some req,
                             s\<lparr>grp_requests_selected := grp_requests_selected s + 1,
                               grp_row_hits := grp_row_hits s + 1,
                               grp_grouping_decisions := grp_grouping_decisions s + 1\<rparr>)
                    | None \<Rightarrow>
                        Inr (Some (hd hits),
                             s\<lparr>grp_requests_selected := grp_requests_selected s + 1,
                               grp_row_hits := grp_row_hits s + 1\<rparr>))
                 else fcfs)))
      else Inl VectorIndexOutOfRange)"

definition grp_has_pending ::
  "FrFcfsGrpScheduler \<Rightarrow> Bank \<Rightarrow> RequestType \<Rightarrow> fault + bool" where
  "grp_has_pending s bk ty =
     (if unat bk < length (grp_buffers s)
      then Inr (length (grp_buffers s ! unat bk) \<ge> 2)
      else Inl VectorIndexOutOfRange)"

section \<open>Timing, organization and configuration (core/timing.hpp)\<close>

record TimingParams =
  tRCD :: "32 word"
  tRP :: "32 word"
  tRAS :: "32 word"
  tRC :: "32 word"
  tCL :: "32 word"
  tWL :: "32 word"
  tWR :: "32 word"
  tRTP :: "32 word"
  tRRD_L :: "32 word"
  tRRD_S :: "32 word"
  tCCD_L :: "32 word"
  tCCD_S :: "32 word"
  tFAW :: "32 word"
  tWTR_L :: "32 word"
  tWTR_S :: "32 word"
  tRTW :: "32 word"
  tBurst :: "32 word"
  tRFC :: "32 word"
  tRFCpb :: "32 word"
  tRFCsb :: "32 word"
  tREFI :: "32 word"
  fixed_read_latency :: "32 word"
  fixed_write_latency :: "32 word"

text \<open>\<open>TimingParams{}\<close>: the default member initialisers.\<close>

definition TimingParams_default :: TimingParams where
  "TimingParams_default =
     \<lparr>tRCD = 14, tRP = 14, tRAS = 28, tRC = 42, tCL = 14, tWL = 8, tWR = 24, tRTP = 6,
      tRRD_L = 6, tRRD_S = 4, tCCD_L = 6, tCCD_S = 4, tFAW = 24,
      tWTR_L = 10, tWTR_S = 4, tRTW = 14, tBurst = 8,
      tRFC = 280, tRFCpb = 90, tRFCsb = 90, tREFI = 3900,
      fixed_read_latency = 100, fixed_write_latency = 100\<rparr>"

record OrganizationParams =
  num_channels :: "8 word"
  ranks_per_channel :: "8 word"
  bank_groups_per_rank :: "8 word"
  banks_per_bank_group :: "8 word"
  rows_per_bank :: "32 word"
  columns_per_row :: "32 word"

definition OrganizationParams_default :: OrganizationParams where
  "OrganizationParams_default =
     \<lparr>num_channels = 1, ranks_per_channel = 1, bank_groups_per_rank = 4,
      banks_per_bank_group = 4, rows_per_bank = 65536, columns_per_row = 1024\<rparr>"

text \<open>The product is computed in \<open>int\<close> and returned as \<open>uint8_t\<close>: it is cut to 8 bits.\<close>

definition banks_per_rank :: "OrganizationParams \<Rightarrow> 8 word" where
  "banks_per_rank org = bank_groups_per_rank org * banks_per_bank_group org"

record ControllerConfig =
  queue_depth :: "32 word"
  timing :: TimingParams
  organization :: OrganizationParams

definition ControllerConfig_default :: ControllerConfig where
  "ControllerConfig_default =
     \<lparr>queue_depth = 32, timing = TimingParams_default,
      organization = OrganizationParams_default\<rparr>"

section \<open>Statistics (core/statistics.hpp)\<close>

text \<open>The counters the LPDDR5 controllers update; \<open>reset\<close> zeroes the others too.\<close>

record Statistics =
  reads :: "64 word"
  writes :: "64 word"
  page_hits :: "64 word"
  page_empty :: "64 word"
  page_conflicts :: "64 word"
  total_read_latency :: "64 word"
  total_write_latency :: "64 word"
  min_latency :: "64 word"
  max_latency :: "64 word"

definition Statistics_reset :: Statistics where
  "Statistics_reset =
     \<lparr>reads = 0, writes = 0, page_hits = 0, page_empty = 0, page_conflicts = 0,
      total_read_latency = 0, total_write_latency = 0,
      min_latency = - 1, max_latency = 0\<rparr>"

definition total_requests :: "Statistics \<Rightarrow> 64 word" where
  "total_requests st = reads st + writes st"

definition record_request ::
  "Statistics \<Rightarrow> RequestType \<Rightarrow> Cycle \<Rightarrow> bool \<Rightarrow> bool \<Rightarrow> Statistics" where
  "record_request st ty latency page_hit page_conflict =
     (let st1 = (if ty = READ
                 then st\<lparr>reads := reads st + 1,
                         total_read_latency := total_read_latency st + latency\<rparr>
                 else st\<lparr>writes := writes st + 1,
                         total_write_latency := total_write_latency st + latency\<rparr>);
          st2 = (if page_hit then st1\<lparr>page_hits := page_hits st1 + 1\<rparr>
                 else if page_conflict then st1\<lparr>page_conflicts := page_conflicts st1 + 1\<rparr>
                 else st1\<lparr>page_empty := page_empty st1 + 1\<rparr>)
      in st2\<lparr>min_latency := min (min_latency st2) latency,
              max_latency := max (max_latency st2) latency\<rparr>)"

section \<open>Bank state machine (technology/lpddr5/lpddr5_controller.hpp)\<close>

record LPDDR5Bank =
  state :: BankState
  open_row :: Row
  state_until :: Cycle
  next_act :: Cycle
  next_rd :: Cycle
  next_wr :: Cycle
  next_pre :: Cycle

definition LPDDR5Bank_default :: LPDDR5Bank where
  "LPDDR5Bank_default =
     \<lparr>state = IDLE, open_row = 0, state_until = 0,
      next_act = 0, next_rd = 0, next_wr = 0, next_pre = 0\<rparr>"

definition is_ready_for :: "LPDDR5Bank \<Rightarrow> RequestType \<Rightarrow> Cycle \<Rightarrow> bool" where
  "is_ready_for b ty now =
     (if state b \<noteq> ACTIVE then False
      else if ty = READ then now \<ge> next_rd b else now \<ge> next_wr b)"

section \<open>Behavioral controller\<close>

record BehavioralLPDDR5Controller =
  b_config :: ControllerConfig
  b_current_cycle :: Cycle
  b_next_id :: RequestId
  b_stats :: Statistics
  b_tracing :: bool

definition BehavioralLPDDR5Controller_new ::
  "ControllerConfig \<Rightarrow> BehavioralLPDDR5Controller" where
  "BehavioralLPDDR5Controller_new cfg =
     \<lparr>b_config = cfg, b_current_cycle = 0, b_next_id = 1,
      b_stats = Statistics_reset, b_tracing = False\<rparr>"

text \<open>
  \<open>submit\<close> returns the id, the controller after the call and the callback invocations
  made before it returns.
\<close>

definition b_submit ::
  "BehavioralLPDDR5Controller \<Rightarrow> Request
     \<Rightarrow> RequestId option \<times> BehavioralLPDDR5Controller \<times> Invocation list" where
  "b_submit c request =
     (let request1 = request\<lparr>req_id := b_next_id c\<rparr>;
          c1 = c\<lparr>b_next_id := b_next_id c + 1\<rparr>;
          latency = (if req_type request1 = READ
                     then ucast (fixed_read_latency (timing (b_config c1)))
                     else ucast (fixed_write_latency (timing (b_config c1))));
          st = b_stats c1;
          c2 = (if req_type request1 = READ
                then c1\<lparr>b_stats := st\<lparr>reads := reads st + 1,
                            total_read_latency := total_read_latency st + latency\<rparr>\<rparr>
                else c1\<lparr>b_stats := st\<lparr>writes := writes st + 1,
                            total_write_latency := total_write_latency st + latency\<rparr>\<rparr>)
      in (Some (req_id request1), c2,
          (case callback request1 of None \<Rightarrow> [] | Some h \<Rightarrow> [(h, latency)])))"

definition b_tick ::
  "BehavioralLPDDR5Controller \<Rightarrow> BehavioralLPDDR5Controller \<times> Invocation list" where
  "b_tick c = (c\<lparr>b_current_cycle := b_current_cycle c + 1\<rparr>, [])"

definition b_drain ::
  "BehavioralLPDDR5Controller \<Rightarrow> BehavioralLPDDR5Controller \<times> Invocation list" where
  "b_drain c = (c, [])"

definition b_has_pending :: "BehavioralLPDDR5Controller \<Rightarrow> bool" where
  "b_has_pending c = False"

definition b_pending_count :: "BehavioralLPDDR5Controller \<Rightarrow> 64 word" where
  "b_pending_count c = 0"

section \<open>Cycle-accurate controller (technology/lpddr5_controller.cpp)\<close>

record Violation =
  v_cycle :: Cycle
  v_invariant_id :: string
  v_message :: string
  v_channel :: Channel
  v_bank :: Bank

record CycleAccurateLPDDR5Controller =
  config :: ControllerConfig
  current_cycle :: Cycle
  next_id :: RequestId
  banks :: "LPDDR5Bank list"
  scheduler :: FrFcfsScheduler
  last_command :: RequestType
  last_read_cycle :: Cycle
  last_write_cycle :: Cycle
  stats :: Statistics
  tracing :: bool
  check_invariants :: bool
  violations :: "Violation list"

text \<open>
  The constructor. \<open>banks_\<close> has \<open>num_channels * banks_per_rank()\<close> entries (a product
  of two promoted \<open>uint8_t\<close>, so it is not cut); the scheduler is an FR-FCFS scheduler
  whose bank count is that size cast to \<open>uint8_t\<close>. The refresh manager is never
  constructed (\<open>refresh_\<close> stays null), so the model has no refresh state.
\<close>

definition CycleAccurateLPDDR5Controller_new ::
  "ControllerConfig \<Rightarrow> CycleAccurateLPDDR5Controller" where
  "CycleAccurateLPDDR5Controller_new cfg =
     (let n = unat (num_channels (organization cfg))
                * unat (banks_per_rank (organization cfg)) in
      \<lparr>config = cfg, current_cycle = 0, next_id = 1,
       banks = replicate n LPDDR5Bank_default,
       scheduler = FrFcfsScheduler_new
                     \<lparr>buffer_size = queue_depth cfg, num_banks = of_nat n\<rparr>,
       last_command = READ, last_read_cycle = 0, last_write_cycle = 0,
       stats = Statistics_reset, tracing = False, check_invariants = False,
       violations = []\<rparr>)"

text \<open>
  \<open>decode_address\<close>. The masks \<open>banks_per_rank() - 1\<close> and \<open>num_channels - 1\<close> are
  computed in \<open>int\<close> and converted to 64 bits for the \<open>&\<close>, so a count of 0 gives the
  mask of all ones; subtracting 1 from the zero-extended count in 64 bits is the same value.
\<close>

definition decode_address :: "ControllerConfig \<Rightarrow> Request \<Rightarrow> Request" where
  "decode_address cfg request =
     (let org = organization cfg;
          addr0 = address request;
          r1 = request\<lparr>column := ucast (addr0 AND (push_bit 10 1 - 1))\<rparr>;
          addr1 = drop_bit 10 addr0;
          r2 = r1\<lparr>bank := ucast (addr1 AND (ucast (banks_per_rank org) - 1))\<rparr>;
          addr2 = drop_bit 4 addr1;
          r3 = r2\<lparr>row := ucast (addr2 AND (push_bit 16 1 - 1))\<rparr>;
          addr3 = drop_bit 16 addr2
      in r3\<lparr>channel := ucast (addr3 AND (ucast (num_channels org) - 1))\<rparr>)"

text \<open>
  \<open>submit\<close> returns the optional id and the controller after the call. It takes the
  request by value and hands that parameter to \<open>store\<close>, which keeps its address. During
  the call the parameter is alive, and \<open>store\<close> reads its bank; the entry added to the
  queue holds the request as it is then. When \<open>submit\<close> returns the parameter is
  destroyed: from then on the entry stands for a pointer to a destroyed object, and its
  contents are no longer what a read through the pointer finds (see \<open>StaleReads\<close> below).
\<close>

definition submit ::
  "CycleAccurateLPDDR5Controller \<Rightarrow> Request
     \<Rightarrow> fault + (RequestId option \<times> CycleAccurateLPDDR5Controller)" where
  "submit c request =
     (if \<not> has_space (scheduler c) 1 then Inr (None, c)
      else
        (let request1 = request\<lparr>req_id := next_id c\<rparr>;
             c1 = c\<lparr>next_id := next_id c + 1\<rparr>;
             request2 = request1\<lparr>submit_cycle := current_cycle c1\<rparr>;
             request3 = decode_address (config c1) request2
         in case store (scheduler c1) request3 of
              Inl f \<Rightarrow> Inl f
            | Inr s' \<Rightarrow> Inr (Some (req_id request3), c1\<lparr>scheduler := s'\<rparr>)))"

definition can_accept :: "CycleAccurateLPDDR5Controller \<Rightarrow> bool" where
  "can_accept c = has_space (scheduler c) 1"

definition c_has_pending :: "CycleAccurateLPDDR5Controller \<Rightarrow> bool" where
  "c_has_pending c = has_any_pending (scheduler c)"

definition pending_count :: "CycleAccurateLPDDR5Controller \<Rightarrow> 64 word" where
  "pending_count c = occupancy (scheduler c)"

definition update_bank :: "Cycle \<Rightarrow> LPDDR5Bank \<Rightarrow> LPDDR5Bank" where
  "update_bank now b =
     (if now \<ge> state_until b then
        (case state b of
           ACTIVATING \<Rightarrow> b\<lparr>state := ACTIVE\<rparr>
         | PRECHARGING \<Rightarrow> b\<lparr>state := IDLE, open_row := 0\<rparr>
         | READING \<Rightarrow> b\<lparr>state := ACTIVE\<rparr>
         | WRITING \<Rightarrow> b\<lparr>state := ACTIVE\<rparr>
         | REFRESHING \<Rightarrow> b\<lparr>state := IDLE\<rparr>
         | _ \<Rightarrow> b)
      else b)"

definition update_bank_states ::
  "CycleAccurateLPDDR5Controller \<Rightarrow> CycleAccurateLPDDR5Controller" where
  "update_bank_states c = c\<lparr>banks := map (update_bank (current_cycle c)) (banks c)\<rparr>"

subsection \<open>Issuing commands\<close>

text \<open>
  The source has no command object: a command is issued where a branch of
  \<open>issue_commands\<close> moves a bank to the state the command leads to. The model names
  those points. It returns, beside the controller, the events of the call in order:
  \<open>Issued i cmd\<close> where the branch for bank \<open>i\<close> latches the bank for \<open>cmd\<close>
  (\<open>ACT\<close>: \<open>IDLE\<close> to \<open>ACTIVATING\<close>; \<open>RD\<close>, \<open>WR\<close>: \<open>ACTIVE\<close> to \<open>READING\<close>,
  \<open>WRITING\<close>; \<open>PRE\<close>: \<open>ACTIVE\<close> to \<open>PRECHARGING\<close>; no branch issues \<open>REF\<close>), and
  \<open>Invoked h latency\<close> where the callback with handle \<open>h\<close> is called.
\<close>

datatype Command = ACT | RD | WR | PRE | REF

datatype Event = Issued nat Command | Invoked nat Cycle

text \<open>The latches of the four branches, on the bank record.\<close>

definition latch_act :: "TimingParams \<Rightarrow> Cycle \<Rightarrow> Request \<Rightarrow> LPDDR5Bank \<Rightarrow> LPDDR5Bank" where
  "latch_act t now req b =
     b\<lparr>state := ACTIVATING, open_row := row req,
       state_until := now + ucast (tRCD t),
       next_act := now + ucast (tRC t),
       next_rd := now + ucast (tRCD t),
       next_wr := now + ucast (tRCD t)\<rparr>"

definition latch_rd :: "TimingParams \<Rightarrow> Cycle \<Rightarrow> LPDDR5Bank \<Rightarrow> LPDDR5Bank" where
  "latch_rd t now b =
     b\<lparr>state := READING,
       state_until := now + ucast (tBurst t),
       next_rd := now + ucast (tCCD_S t),
       next_wr := now + ucast (tRTW t)\<rparr>"

definition latch_wr :: "TimingParams \<Rightarrow> Cycle \<Rightarrow> LPDDR5Bank \<Rightarrow> LPDDR5Bank" where
  "latch_wr t now b =
     b\<lparr>state := WRITING,
       state_until := now + ucast (tBurst t),
       next_wr := now + ucast (tCCD_S t),
       next_rd := now + ucast (tWTR_S t)\<rparr>"

definition latch_pre :: "TimingParams \<Rightarrow> Cycle \<Rightarrow> LPDDR5Bank \<Rightarrow> LPDDR5Bank" where
  "latch_pre t now b =
     b\<lparr>state := PRECHARGING,
       state_until := now + ucast (tRP t),
       next_act := now + ucast (tRP t)\<rparr>"

subsection \<open>Reads through the queued pointers\<close>

text \<open>
  Every pointer in the controller's scheduler was stored by \<open>submit\<close> and refers to a
  destroyed object, so each read through one (\<open>req->row\<close> in \<open>get_next\<close>; \<open>req->row\<close>,
  \<open>req->type\<close>, \<open>req->submit_cycle\<close>, \<open>req->callback\<close> in \<open>issue_commands\<close>;
  \<open>request.bank\<close>, \<open>request.id\<close> and \<open>(*it)->id\<close> in \<open>remove\<close>) is undefined
  behaviour: it finds whatever the memory holds at that moment. The model does not fix what
  is found. \<open>tick\<close> takes, for each bank index, a value of \<open>StaleReads\<close> that says it:
  \<^item> \<open>scanned k\<close>: the request found behind entry \<open>k\<close> of the bank's queue by the scan
    of \<open>get_next\<close>;
  \<^item> \<open>selected\<close>: the request found behind the pointer \<open>get_next\<close> returned, by the
    branches of \<open>issue_commands\<close>;
  \<^item> \<open>call_returns\<close>: whether the call of the callback found there returns; when it does
    not, the run ends (\<open>Inl DestroyedCallbackCall\<close>);
  \<^item> \<open>removed\<close>: the request found behind the same pointer by \<open>remove\<close>;
  \<^item> \<open>rescanned k\<close>: the request found behind entry \<open>k\<close> of the queue that \<open>remove\<close>
    walks.
  Every theorem on \<open>tick\<close> is for all such values. The lists of the scheduler keep one
  entry for each queued pointer, which is the state the program really has (the list nodes
  are alive); the contents of an entry are those stored by \<open>submit\<close> or found by the last
  read and say nothing on the next read.
\<close>

record StaleReads =
  scanned :: "nat \<Rightarrow> Request"
  selected :: Request
  call_returns :: bool
  removed :: Request
  rescanned :: "nat \<Rightarrow> Request"

text \<open>The queue of bank \<open>b\<close> as a read finds it: entry \<open>k\<close> reads as \<open>found k\<close>.\<close>

definition reread :: "(nat \<Rightarrow> Request) \<Rightarrow> nat \<Rightarrow> FrFcfsScheduler \<Rightarrow> FrFcfsScheduler" where
  "reread found b s =
     (if b < length (buffers s)
      then s\<lparr>buffers := (buffers s)[b := map found [0..<length (buffers s ! b)]]\<rparr>
      else s)"

text \<open>
  The row-hit branch, entered when \<open>is_ready_for\<close> holds: count the hit, latch the bank,
  record the completion, call the callback, remove the request from the scheduler.
  \<open>req\<close> is the request found behind the selected pointer.
\<close>

definition issue_row_hit ::
  "StaleReads \<Rightarrow> nat \<Rightarrow> Request \<Rightarrow> CycleAccurateLPDDR5Controller
     \<Rightarrow> fault + (CycleAccurateLPDDR5Controller \<times> Event list)" where
  "issue_row_hit rd i req c =
     (let now = current_cycle c;
          t = timing (config c);
          c1 = c\<lparr>stats := (stats c)\<lparr>page_hits := page_hits (stats c) + 1\<rparr>\<rparr>;
          c2 = (if req_type req = READ
                then c1\<lparr>banks := (banks c1)[i := latch_rd t now (banks c1 ! i)],
                        last_read_cycle := now\<rparr>
                else c1\<lparr>banks := (banks c1)[i := latch_wr t now (banks c1 ! i)],
                        last_write_cycle := now\<rparr>);
          c3 = c2\<lparr>last_command := req_type req\<rparr>;
          latency = now - submit_cycle req + ucast (tBurst t);
          c4 = c3\<lparr>stats := record_request (stats c3) (req_type req) latency True False\<rparr>;
          called = (case callback req of
                      None \<Rightarrow> Inr []
                    | Some h \<Rightarrow> if call_returns rd then Inr [Invoked h latency]
                                else Inl DestroyedCallbackCall)
      in case called of
           Inl f \<Rightarrow> Inl f
         | Inr calls \<Rightarrow>
             (case remove (reread (rescanned rd) (unat (bank (removed rd))) (scheduler c4))
                          (removed rd) of
                Inl f \<Rightarrow> Inl f
              | Inr s' \<Rightarrow>
                  Inr (c4\<lparr>scheduler := s'\<rparr>,
                       Issued i (if req_type req = READ then RD else WR) # calls)))"

text \<open>
  One iteration of the loop of \<open>issue_commands\<close>, for the bank at index \<open>i\<close>.
  \<open>get_next\<close> scans the queue as \<open>scanned\<close> says; whether it returns a pointer depends
  on the queue being empty or not, and the request behind that pointer is \<open>selected\<close>.
\<close>

definition issue_bank ::
  "StaleReads \<Rightarrow> nat \<Rightarrow> CycleAccurateLPDDR5Controller
     \<Rightarrow> fault + (CycleAccurateLPDDR5Controller \<times> Event list)" where
  "issue_bank rd i c =
     (if i < length (banks c) then
        (let bk = banks c ! i;
             row_opt = (if state bk = ACTIVE then Some (open_row bk) else None);
             now = current_cycle c;
             t = timing (config c)
         in case get_next (reread (scanned rd) (unat (of_nat i :: Bank)) (scheduler c))
                          (of_nat i) row_opt (last_command c) of
              Inl f \<Rightarrow> Inl f
            | Inr (None, s1) \<Rightarrow> Inr (c\<lparr>scheduler := s1\<rparr>, [])
            | Inr (Some found, s1) \<Rightarrow>
                (let req = selected rd;
                     c1 = c\<lparr>scheduler := s1\<rparr> in
                 if state bk = IDLE then
                   (if now \<ge> next_act bk
                    then Inr (c1\<lparr>banks := (banks c1)[i := latch_act t now req bk]\<rparr>,
                              [Issued i ACT])
                    else Inr (c1, []))
                 else if state bk = ACTIVE then
                   (if open_row bk = row req then
                      (if is_ready_for bk (req_type req) now
                       then issue_row_hit rd i req c1
                       else Inr (c1, []))
                    else
                      (let c2 = c1\<lparr>stats := (stats c1)
                                  \<lparr>page_conflicts := page_conflicts (stats c1) + 1\<rparr>\<rparr> in
                       if now \<ge> next_pre bk
                       then Inr (c2\<lparr>banks := (banks c2)[i := latch_pre t now bk]\<rparr>,
                                 [Issued i PRE])
                       else Inr (c2, [])))
                 else Inr (c1, [])))
      else Inl VectorIndexOutOfRange)"

text \<open>
  The loop \<open>for (i = 0; i < banks_.size(); ++i)\<close>: the indices are visited in order and
  a fault ends the run. No iteration changes the size of \<open>banks_\<close>. \<open>env i\<close> is what the
  iteration for bank \<open>i\<close> reads through the queued pointers.
\<close>

fun issue_loop ::
  "(nat \<Rightarrow> StaleReads) \<Rightarrow> nat list \<Rightarrow> CycleAccurateLPDDR5Controller
     \<Rightarrow> fault + (CycleAccurateLPDDR5Controller \<times> Event list)" where
  "issue_loop env [] c = Inr (c, [])"
| "issue_loop env (i # rest) c =
     (case issue_bank (env i) i c of
        Inl f \<Rightarrow> Inl f
      | Inr (c1, ev1) \<Rightarrow>
          (case issue_loop env rest c1 of
             Inl f \<Rightarrow> Inl f
           | Inr (c2, ev2) \<Rightarrow> Inr (c2, ev1 @ ev2)))"

definition issue_commands ::
  "(nat \<Rightarrow> StaleReads) \<Rightarrow> CycleAccurateLPDDR5Controller
     \<Rightarrow> fault + (CycleAccurateLPDDR5Controller \<times> Event list)" where
  "issue_commands env c = issue_loop env [0..<length (banks c)] c"

definition complete_transfers ::
  "CycleAccurateLPDDR5Controller \<Rightarrow> CycleAccurateLPDDR5Controller" where
  "complete_transfers c = c"

definition check_timing_invariants ::
  "CycleAccurateLPDDR5Controller \<Rightarrow> CycleAccurateLPDDR5Controller" where
  "check_timing_invariants c = c"

definition tick ::
  "(nat \<Rightarrow> StaleReads) \<Rightarrow> CycleAccurateLPDDR5Controller
     \<Rightarrow> fault + (CycleAccurateLPDDR5Controller \<times> Event list)" where
  "tick env c =
     (let c1 = c\<lparr>current_cycle := current_cycle c + 1\<rparr>;
          c2 = update_bank_states c1
      in case issue_commands env c2 of
           Inl f \<Rightarrow> Inl f
         | Inr (c3, ev) \<Rightarrow>
             (let c4 = complete_transfers c3 in
              Inr (if check_invariants c4 then check_timing_invariants c4 else c4, ev)))"

definition reset :: "CycleAccurateLPDDR5Controller \<Rightarrow> CycleAccurateLPDDR5Controller" where
  "reset c =
     c\<lparr>current_cycle := 0, next_id := 1,
       banks := map (\<lambda>b. LPDDR5Bank_default) (banks c),
       stats := Statistics_reset,
       violations := []\<rparr>"

definition set_cycle ::
  "CycleAccurateLPDDR5Controller \<Rightarrow> Cycle \<Rightarrow> CycleAccurateLPDDR5Controller" where
  "set_cycle c cy = c\<lparr>current_cycle := cy\<rparr>"

definition reset_stats ::
  "CycleAccurateLPDDR5Controller \<Rightarrow> CycleAccurateLPDDR5Controller" where
  "reset_stats c = c\<lparr>stats := Statistics_reset\<rparr>"

definition enable_invariants ::
  "CycleAccurateLPDDR5Controller \<Rightarrow> bool \<Rightarrow> CycleAccurateLPDDR5Controller" where
  "enable_invariants c e = c\<lparr>check_invariants := e\<rparr>"

subsection \<open>Calls and reachable states\<close>

text \<open>A call of \<open>tick\<close> comes with what it reads through the queued pointers.\<close>

datatype Call =
  Submit Request | Tick "nat \<Rightarrow> StaleReads" | Reset | SetCycle Cycle | ResetStats
  | EnableInvariants bool

fun step ::
  "Call \<Rightarrow> CycleAccurateLPDDR5Controller
     \<Rightarrow> fault + (CycleAccurateLPDDR5Controller \<times> Event list)" where
  "step (Submit r) c =
     (case submit c r of Inl f \<Rightarrow> Inl f | Inr (res, c') \<Rightarrow> Inr (c', []))"
| "step (Tick env) c = tick env c"
| "step Reset c = Inr (reset c, [])"
| "step (SetCycle cy) c = Inr (set_cycle c cy, [])"
| "step ResetStats c = Inr (reset_stats c, [])"
| "step (EnableInvariants e) c = Inr (enable_invariants c e, [])"

text \<open>A sequence of calls, from the left; the events of all calls in order.\<close>

fun run ::
  "Call list \<Rightarrow> CycleAccurateLPDDR5Controller
     \<Rightarrow> fault + (CycleAccurateLPDDR5Controller \<times> Event list)" where
  "run [] c = Inr (c, [])"
| "run (call # calls) c =
     (case step call c of
        Inl f \<Rightarrow> Inl f
      | Inr (c1, ev1) \<Rightarrow>
          (case run calls c1 of
             Inl f \<Rightarrow> Inl f
           | Inr (c2, ev2) \<Rightarrow> Inr (c2, ev1 @ ev2)))"

inductive reachable :: "ControllerConfig \<Rightarrow> CycleAccurateLPDDR5Controller \<Rightarrow> bool"
  for cfg :: ControllerConfig where
  reachable_new: "reachable cfg (CycleAccurateLPDDR5Controller_new cfg)"
| reachable_step: "reachable cfg c \<Longrightarrow> step call c = Inr (c', ev) \<Longrightarrow> reachable cfg c'"

text \<open>The commands among the events of a call.\<close>

fun commands_of :: "Event list \<Rightarrow> (nat \<times> Command) list" where
  "commands_of [] = []"
| "commands_of (Issued i cmd # ev) = (i, cmd) # commands_of ev"
| "commands_of (Invoked h l # ev) = commands_of ev"

section \<open>Requests built by the interface (interface/memory_controller.hpp)\<close>

text \<open>
  \<open>IMemoryController::read\<close> and \<open>write\<close> build a default request with the address, the
  size, the type and the callback, and pass it to \<open>submit\<close>.
\<close>

definition read_request :: "Address \<Rightarrow> 32 word \<Rightarrow> CompletionCallback \<Rightarrow> Request" where
  "read_request a sz cb =
     Request_default\<lparr>address := a, req_size := sz, req_type := READ, callback := cb\<rparr>"

definition write_request :: "Address \<Rightarrow> 32 word \<Rightarrow> CompletionCallback \<Rightarrow> Request" where
  "write_request a sz cb =
     Request_default\<lparr>address := a, req_size := sz, req_type := WRITE, callback := cb\<rparr>"

section \<open>Configurations that index in range, and the invariant of reachable states\<close>

text \<open>
  \<open>nbanks\<close> is the size of \<open>banks_\<close>. Under \<open>wf_config\<close> (at least one channel, at
  least one bank per rank, fewer than 256 banks) the cast of that size to \<open>uint8_t\<close> loses
  nothing and every decoded bank is below it, so \<open>submit\<close> never indexes out of range.
  \<open>sched_inv\<close> and \<open>ctrl_inv\<close> hold in every reachable state, for every configuration.
\<close>

definition nbanks :: "ControllerConfig \<Rightarrow> nat" where
  "nbanks cfg = unat (num_channels (organization cfg))
                  * unat (banks_per_rank (organization cfg))"

definition wf_config :: "ControllerConfig \<Rightarrow> bool" where
  "wf_config cfg \<longleftrightarrow>
     0 < unat (num_channels (organization cfg))
     \<and> 0 < unat (banks_per_rank (organization cfg))
     \<and> nbanks cfg < 256"

definition sched_inv :: "FrFcfsScheduler \<Rightarrow> bool" where
  "sched_inv s \<longleftrightarrow>
     length (buffers s) = unat (num_banks (config_s s))
     \<and> length (buffer_depths s) = unat (num_banks (config_s s))
     \<and> unat (total_occupancy s) = sum_list (map length (buffers s))
     \<and> total_occupancy s \<le> ucast (buffer_size (config_s s))"

definition ctrl_inv :: "ControllerConfig \<Rightarrow> CycleAccurateLPDDR5Controller \<Rightarrow> bool" where
  "ctrl_inv cfg c \<longleftrightarrow>
     config c = cfg
     \<and> length (banks c) = nbanks cfg
     \<and> config_s (scheduler c) = \<lparr>buffer_size = queue_depth cfg, num_banks = of_nat (nbanks cfg)\<rparr>
     \<and> sched_inv (scheduler c)"


section \<open>Example inputs\<close>

text \<open>
  Requests as the controller hands them to a scheduler, with the fields the schedulers
  read, and schedulers filled by successive \<open>store\<close> calls. In \<open>example_queue\<close> the
  second request reads the address the first one writes.
\<close>

definition example_request :: "RequestId \<Rightarrow> Address \<Rightarrow> RequestType \<Rightarrow> Row \<Rightarrow> Request" where
  "example_request i a ty r =
     Request_default\<lparr>req_id := i, address := a, req_type := ty, row := r\<rparr>"

definition example_config :: SchedulerConfig where
  "example_config = \<lparr>buffer_size = 32, num_banks = 1\<rparr>"

fun store_all :: "FrFcfsScheduler \<Rightarrow> Request list \<Rightarrow> fault + FrFcfsScheduler" where
  "store_all s [] = Inr s"
| "store_all s (r # rs) =
     (case store s r of Inl f \<Rightarrow> Inl f | Inr s' \<Rightarrow> store_all s' rs)"

fun fifo_store_all :: "FifoScheduler \<Rightarrow> Request list \<Rightarrow> fault + FifoScheduler" where
  "fifo_store_all s [] = Inr s"
| "fifo_store_all s (r # rs) =
     (case fifo_store s r of Inl f \<Rightarrow> Inl f | Inr s' \<Rightarrow> fifo_store_all s' rs)"

fun grp_store_all :: "FrFcfsGrpScheduler \<Rightarrow> Request list \<Rightarrow> fault + FrFcfsGrpScheduler" where
  "grp_store_all s [] = Inr s"
| "grp_store_all s (r # rs) =
     (case grp_store s r of Inl f \<Rightarrow> Inl f | Inr s' \<Rightarrow> grp_store_all s' rs)"

definition example_queue :: "Request list" where
  "example_queue =
     [example_request 1 64 WRITE 7, example_request 2 64 READ 7,
      example_request 3 128 READ 9, example_request 4 192 READ 7]"

definition example_sched :: FrFcfsScheduler where
  "example_sched =
     \<lparr>config_s = example_config, buffers = [example_queue], buffer_depths = [4],
      total_occupancy = 4, requests_selected = 0, row_hits = 0\<rparr>"

definition example_fifo :: FifoScheduler where
  "example_fifo =
     \<lparr>fifo_config = example_config, fifo_buffers = [[example_request 1 64 WRITE 7]],
      fifo_buffer_depths = [1], fifo_total_occupancy = 1, fifo_requests_selected = 0\<rparr>"

definition example_grp :: FrFcfsGrpScheduler where
  "example_grp =
     \<lparr>grp_config = example_config, grp_buffers = [example_queue],
      grp_buffer_depths = [4], grp_total_occupancy = 4, grp_last_command = READ,
      grp_requests_selected = 0, grp_row_hits = 0, grp_grouping_decisions = 0\<rparr>"


text \<open>
  Calls and configurations used below: two reads that decode to banks 0 and 1; one read of
  address 0 with a callback, and one without; the default configuration with 1024 rows per
  bank, with a queue of depth 1, and with a fixed read latency of 80. \<open>stored_read\<close> is
  the read of address 0 as \<open>submit\<close> stores it in a new controller, and \<open>found_as r\<close>
  are the reads of a run in which every read through a queued pointer finds \<open>r\<close>.
\<close>

definition one_quiet_read :: "Call list" where
  "one_quiet_read = [Submit (read_request 0 64 None)]"

definition stored_read :: Request where
  "stored_read = (read_request 0 64 None)\<lparr>req_id := 1\<rparr>"

definition found_as :: "Request \<Rightarrow> nat \<Rightarrow> StaleReads" where
  "found_as r i =
     \<lparr>scanned = (\<lambda>k. r), selected = r, call_returns = True, removed = r,
      rescanned = (\<lambda>k. r)\<rparr>"

definition two_bank_requests :: "Call list" where
  "two_bank_requests = [Submit (read_request 0 64 None), Submit (read_request 1024 64 None)]"

definition one_read :: "Call list" where
  "one_read = [Submit (read_request 0 64 (Some 0))]"

definition rows_1024_config :: ControllerConfig where
  "rows_1024_config =
     ControllerConfig_default
       \<lparr>organization := OrganizationParams_default\<lparr>rows_per_bank := 1024\<rparr>\<rparr>"


definition latency_80_config :: ControllerConfig where
  "latency_80_config =
     ControllerConfig_default
       \<lparr>timing := TimingParams_default\<lparr>fixed_read_latency := 80\<rparr>\<rparr>"

definition sixteen_by_sixteen_config :: ControllerConfig where
  "sixteen_by_sixteen_config =
     ControllerConfig_default
       \<lparr>organization := OrganizationParams_default\<lparr>num_channels := 16\<rparr>\<rparr>"

section \<open>Lemmas on the schedulers\<close>

lemma example_sched_stored:
  "store_all (FrFcfsScheduler_new example_config) example_queue = Inr example_sched"
  by (simp add: example_sched_def example_queue_def example_config_def
        FrFcfsScheduler_new_def store_def example_request_def Request_default_def)

lemma example_fifo_stored:
  "fifo_store_all (FifoScheduler_new example_config) [example_request 1 64 WRITE 7]
     = Inr example_fifo"
  by (simp add: example_fifo_def example_config_def
        FifoScheduler_new_def fifo_store_def example_request_def Request_default_def)

lemma example_grp_stored:
  "grp_store_all (FrFcfsGrpScheduler_new example_config) example_queue = Inr example_grp"
  by (simp add: example_grp_def example_queue_def example_config_def
        FrFcfsGrpScheduler_new_def grp_store_def example_request_def Request_default_def)



lemma first_row_hit_Some:
  "first_row_hit r xs = Some q \<Longrightarrow>
     \<exists>pre post. xs = pre @ q # post \<and> row q = r \<and> (\<forall>p\<in>set pre. row p \<noteq> r)"
proof (induction xs)
  case Nil
  then show ?case by simp
next
  case (Cons x xs)
  show ?case
  proof (cases "row x = r")
    case True
    with Cons.prems have "x # xs = [] @ q # xs \<and> row q = r" by simp
    then show ?thesis by fastforce
  next
    case False
    with Cons.prems have "first_row_hit r xs = Some q" by simp
    from Cons.IH [OF this] obtain pre post
      where "xs = pre @ q # post" "row q = r" "\<forall>p\<in>set pre. row p \<noteq> r" by blast
    with False have "x # xs = (x # pre) @ q # post \<and> row q = r
        \<and> (\<forall>p\<in>set (x # pre). row p \<noteq> r)" by simp
    then show ?thesis by blast
  qed
qed

lemma first_row_hit_None: "first_row_hit r xs = None \<longleftrightarrow> (\<forall>q\<in>set xs. row q \<noteq> r)"
  by (induction xs) auto

lemma row_hits_of_filter: "row_hits_of r xs = filter (\<lambda>q. row q = r) xs"
  by (induction xs) auto

lemma has_address_hazard_iff:
  "has_address_hazard bs t \<longleftrightarrow> (\<exists>p\<in>set bs. address p = address t)"
  by (induction bs) auto

lemma same_type_hit_Some:
  "same_type_hit lc earlier hits = Some req \<Longrightarrow>
     \<exists>h1 h2. hits = h1 @ req # h2 \<and> \<not> has_address_hazard (earlier @ h1) req"
proof (induction hits arbitrary: earlier)
  case Nil
  then show ?case by simp
next
  case (Cons x hits)
  show ?case
  proof (cases "req_type x = lc \<and> \<not> has_address_hazard earlier x")
    case True
    with Cons.prems have "x = req" by simp
    with True have "x # hits = [] @ req # hits \<and> \<not> has_address_hazard (earlier @ []) req"
      by simp
    then show ?thesis by blast
  next
    case False
    with Cons.prems have "same_type_hit lc (earlier @ [x]) hits = Some req" by auto
    from Cons.IH [OF this] obtain h1 h2
      where "hits = h1 @ req # h2" "\<not> has_address_hazard ((earlier @ [x]) @ h1) req" by blast
    then have "x # hits = (x # h1) @ req # h2 \<and> \<not> has_address_hazard (earlier @ (x # h1)) req"
      by simp
    then show ?thesis by blast
  qed
qed

lemma filter_split_at:
  "filter P xs = h1 @ q # h2 \<Longrightarrow>
     \<exists>pre post. xs = pre @ q # post \<and> filter P pre = h1 \<and> P q"
proof (induction xs arbitrary: h1)
  case Nil
  then show ?case by simp
next
  case (Cons x xs)
  show ?case
  proof (cases "P x")
    case False
    with Cons.prems have "filter P xs = h1 @ q # h2" by simp
    from Cons.IH [OF this] obtain pre post
      where "xs = pre @ q # post" "filter P pre = h1" "P q" by blast
    with False have "x # xs = (x # pre) @ q # post \<and> filter P (x # pre) = h1 \<and> P q"
      by simp
    then show ?thesis by blast
  next
    case True
    show ?thesis
    proof (cases "h1 = []")
      case True
      with \<open>P x\<close> Cons.prems have "x # xs = [] @ q # xs \<and> filter P [] = h1 \<and> P q" by simp
      then show ?thesis by blast
    next
      case False
      then obtain h hs where h1: "h1 = h # hs" by (cases h1) auto
      with \<open>P x\<close> Cons.prems have hx: "h = x" and "filter P xs = hs @ q # h2" by simp_all
      from Cons.IH [OF this(2)] obtain pre post
        where "xs = pre @ q # post" "filter P pre = hs" "P q" by blast
      with \<open>P x\<close> h1 hx have "x # xs = (x # pre) @ q # post \<and> filter P (x # pre) = h1 \<and> P q"
        by simp
      then show ?thesis by blast
    qed
  qed
qed



section \<open>The invariant holds in every reachable state\<close>

lemma sum_length_update:
  "i < length xss \<Longrightarrow>
     sum_list (map length (xss[i := ys])) + length (xss ! i)
       = sum_list (map length xss) + length ys"
proof (induction xss arbitrary: i)
  case Nil
  then show ?case by simp
next
  case (Cons xs xss)
  then show ?case by (cases i) auto
qed

lemma erase_first_length: "erase_first i xs = Some ys \<Longrightarrow> length xs = Suc (length ys)"
  by (induction xs arbitrary: ys) (auto split: if_splits option.splits)


lemma unat_ucast_32_64: "unat (ucast (d :: 32 word) :: 64 word) = unat d"
proof -
  have "unat d < 2 ^ 32" using unsigned_less [of d, where 'a = nat] by simp
  then have "unat d < 2 ^ 64" by simp
  then show ?thesis by (simp add: unsigned_ucast_eq take_bit_nat_eq_self)
qed

lemma unat_ucast_8_64: "unat (ucast (d :: 8 word) :: 64 word) = unat d"
proof -
  have "unat d < 2 ^ 8" using unsigned_less [of d, where 'a = nat] by simp
  then have "unat d < 2 ^ 64" by simp
  then show ?thesis by (simp add: unsigned_ucast_eq take_bit_nat_eq_self)
qed

lemma unat_mask_8_64:
  assumes "0 < unat (b :: 8 word)"
  shows "unat ((ucast b :: 64 word) - 1) = unat b - 1"
proof -
  from assms have "(ucast b :: 64 word) \<noteq> 0"
    by (metis unat_ucast_8_64 unat_0 less_numeral_extra(3))
  then show ?thesis by (simp add: unat_minus_one unat_ucast_8_64)
qed

lemma unat_and_le: "unat ((x :: 64 word) AND m) \<le> unat m"
  by (metis word_less_eq_iff_unsigned word_and_le1)

lemma unat_ucast_64_8: "unat (w :: 64 word) < 256 \<Longrightarrow> unat (ucast w :: 8 word) = unat w"
  by (simp add: unsigned_ucast_eq take_bit_nat_eq_self)

lemma unat_of_nat_8: "n < 256 \<Longrightarrow> unat (of_nat n :: 8 word) = n"
  by (simp add: unat_of_nat)

lemma decode_bank_bound:
  assumes "0 < unat (b :: 8 word)"
  shows "unat (ucast ((x :: 64 word) AND (ucast b - 1)) :: 8 word) < unat b"
proof -
  have "unat (x AND (ucast b - 1)) \<le> unat b - 1"
    using unat_and_le [of x "ucast b - 1"] unat_mask_8_64 [OF assms] by simp
  moreover have "unat b < 256" using unsigned_less [of b, where 'a = nat] by simp
  ultimately have lt: "unat (x AND (ucast b - 1)) < unat b" and "unat (x AND (ucast b - 1)) < 256"
    using assms by linarith+
  then show ?thesis by (simp add: unat_ucast_64_8)
qed


lemma occupancy_bound: "(ucast (d :: 32 word) :: 64 word) < 2 ^ 32"
proof -
  have "unat d < 2 ^ 32" using unsigned_less [of d, where 'a = nat] by simp
  then show ?thesis by (simp add: word_less_nat_alt unat_ucast_32_64)
qed


lemma sched_inv_new: "sched_inv (FrFcfsScheduler_new cfg)"
  by (simp add: sched_inv_def FrFcfsScheduler_new_def)

lemma get_next_buffers:
  "get_next s bk orow lc = Inr (x, s') \<Longrightarrow>
     buffers s' = buffers s \<and> buffer_depths s' = buffer_depths s
     \<and> total_occupancy s' = total_occupancy s \<and> config_s s' = config_s s"
  by (auto simp: get_next_def Let_def split: if_splits option.splits)

lemma get_next_inv: "get_next s bk orow lc = Inr (x, s') \<Longrightarrow> sched_inv s \<Longrightarrow> sched_inv s'"
  using get_next_buffers [of s bk orow lc x s'] by (auto simp: sched_inv_def)

lemma reread_inv:
  assumes "sched_inv s"
  shows "sched_inv (reread found b s) \<and> config_s (reread found b s) = config_s s"
proof (cases "b < length (buffers s)")
  case False
  with assms show ?thesis by (simp add: reread_def)
next
  case True
  from sum_length_update [OF True, of "map found [0..<length (buffers s ! b)]"]
  have "sum_list (map length ((buffers s)[b := map found [0..<length (buffers s ! b)]]))
          = sum_list (map length (buffers s))" by simp
  with assms True show ?thesis by (simp add: reread_def sched_inv_def)
qed

lemma store_inv:
  assumes st: "store s r = Inr s'" and inv: "sched_inv s" and sp: "has_space s 1"
  shows "sched_inv s' \<and> config_s s' = config_s s"
proof -
  define b where "b = unat (bank r)"
  from st have inb: "b < length (buffers s)" "b < length (buffer_depths s)"
    by (auto simp: store_def Let_def b_def split: if_splits)
  with st have s': "s' = s\<lparr>buffers := (buffers s)[b := buffers s ! b @ [r]],
               buffer_depths := (buffer_depths s)[b := buffer_depths s ! b + 1],
               total_occupancy := total_occupancy s + 1\<rparr>"
    by (auto simp: store_def Let_def b_def)
  from sp have le: "total_occupancy s + 1 \<le> ucast (buffer_size (config_s s))"
    by (simp add: has_space_def)
  from inv have "total_occupancy s \<le> ucast (buffer_size (config_s s))"
    by (simp add: sched_inv_def)
  with occupancy_bound [of "buffer_size (config_s s)"]
  have "unat (total_occupancy s) < 2 ^ 32"
    by (simp add: word_le_nat_alt word_less_nat_alt)
  then have "unat (total_occupancy s) + unat (1 :: 64 word) < 2 ^ LENGTH(64)" by simp
  then have un: "unat (total_occupancy s + 1) = unat (total_occupancy s) + 1"
    by (simp only: unat_add_lem [THEN iffD1] unat_1)
  from sum_length_update [OF inb(1), of "buffers s ! b @ [r]"]
  have sm: "sum_list (map length ((buffers s)[b := buffers s ! b @ [r]]))
          = Suc (sum_list (map length (buffers s)))" by simp
  from inv un sm le show ?thesis by (simp add: s' sched_inv_def)
qed

lemma remove_inv:
  assumes rm: "remove s r = Inr s'" and inv: "sched_inv s"
  shows "sched_inv s' \<and> config_s s' = config_s s"
proof (cases "erase_first (req_id r) (buffers s ! unat (bank r))")
  case None
  with rm have "s' = s" by (auto simp: remove_def Let_def split: if_splits)
  with inv show ?thesis by simp
next
  case (Some ys)
  define b where "b = unat (bank r)"
  from rm have inb: "b < length (buffers s)"
    by (auto simp: remove_def Let_def b_def split: if_splits)
  with rm Some have s': "s' = s\<lparr>buffers := (buffers s)[b := ys],
               buffer_depths := (buffer_depths s)[b := buffer_depths s ! b - 1],
               total_occupancy := total_occupancy s - 1\<rparr>"
    by (auto simp: remove_def Let_def b_def split: if_splits)
  from erase_first_length [OF Some] have len: "length (buffers s ! b) = Suc (length ys)"
    by (simp add: b_def)
  from sum_length_update [OF inb, of ys] len
  have sm: "sum_list (map length (buffers s)) = Suc (sum_list (map length ((buffers s)[b := ys])))"
    by simp
  with inv have pos: "unat (total_occupancy s) = Suc (sum_list (map length ((buffers s)[b := ys])))"
    by (simp add: sched_inv_def)
  then have "total_occupancy s \<noteq> 0" by auto
  then have un: "unat (total_occupancy s - 1) = unat (total_occupancy s) - 1"
    by (rule unat_minus_one)
  moreover from inv have "unat (total_occupancy s) \<le> unat (ucast (buffer_size (config_s s)) :: 64 word)"
    by (simp add: sched_inv_def word_le_nat_alt)
  ultimately have le: "total_occupancy s - 1 \<le> ucast (buffer_size (config_s s))"
    unfolding word_le_nat_alt by linarith
  from un pos have occ': "unat (total_occupancy s - 1) = sum_list (map length ((buffers s)[b := ys]))"
    by simp
  from inv occ' le show ?thesis by (simp add: s' sched_inv_def)
qed

lemma issue_row_hit_proj:
  assumes "issue_row_hit rd i req c = Inr (c', ev)"
  shows "config c' = config c \<and> length (banks c') = length (banks c)
       \<and> current_cycle c' = current_cycle c
       \<and> remove (reread (rescanned rd) (unat (bank (removed rd))) (scheduler c)) (removed rd)
           = Inr (scheduler c')
       \<and> commands_of ev = [(i, if req_type req = READ then RD else WR)]"
  using assms
  by (auto simp: issue_row_hit_def Let_def split: sum.splits if_splits option.splits)

lemma issue_bank_proj:
  assumes "issue_bank rd i c = Inr (c', ev)"
  shows "config c' = config c \<and> length (banks c') = length (banks c) \<and> i < length (banks c)
       \<and> current_cycle c' = current_cycle c
       \<and> (\<exists>x s1. get_next (reread (scanned rd) (unat (of_nat i :: Bank)) (scheduler c)) (of_nat i)
                      (if state (banks c ! i) = ACTIVE then Some (open_row (banks c ! i)) else None)
                      (last_command c) = Inr (x, s1)
                  \<and> (scheduler c' = s1
                      \<or> remove (reread (rescanned rd) (unat (bank (removed rd))) s1) (removed rd)
                          = Inr (scheduler c')))
       \<and> (commands_of ev = [] \<or> (\<exists>cmd. commands_of ev = [(i, cmd)] \<and> cmd \<noteq> REF))"
proof -
  from assms have inb: "i < length (banks c)"
    by (simp add: issue_bank_def split: if_splits)
  define orow where "orow = (if state (banks c ! i) = ACTIVE then Some (open_row (banks c ! i)) else None)"
  define seen where "seen = reread (scanned rd) (unat (of_nat i :: Bank)) (scheduler c)"
  from assms inb obtain x s1 where gn: "get_next seen (of_nat i) orow (last_command c) = Inr (x, s1)"
    by (auto simp: issue_bank_def Let_def orow_def seen_def split: sum.splits)
  show ?thesis
  proof (cases x)
    case None
    with assms inb gn show ?thesis
      by (auto simp: issue_bank_def Let_def orow_def seen_def split: if_splits)
  next
    case (Some found)
    show ?thesis
    proof (cases "state (banks c ! i) = ACTIVE \<and> open_row (banks c ! i) = row (selected rd)
                  \<and> is_ready_for (banks c ! i) (req_type (selected rd)) (current_cycle c)")
      case True
      with assms inb gn Some
      have "issue_row_hit rd i (selected rd) (c\<lparr>scheduler := s1\<rparr>) = Inr (c', ev)"
        by (simp add: issue_bank_def Let_def orow_def seen_def)
      from issue_row_hit_proj [OF this] inb gn Some show ?thesis
        by (auto simp: orow_def seen_def)
    next
      case False
      with assms inb gn Some show ?thesis
        by (auto simp: issue_bank_def Let_def orow_def seen_def split: if_splits)
    qed
  qed
qed

lemma issue_bank_inv:
  assumes "issue_bank rd i c = Inr (c', ev)" and "ctrl_inv cfg c"
  shows "ctrl_inv cfg c'"
proof -
  from issue_bank_proj [OF assms(1)] obtain x s1 orow where
    cf: "config c' = config c" and ln: "length (banks c') = length (banks c)"
    and gn: "get_next (reread (scanned rd) (unat (of_nat i :: Bank)) (scheduler c)) (of_nat i)
               orow (last_command c) = Inr (x, s1)"
    and sc: "scheduler c' = s1
             \<or> remove (reread (rescanned rd) (unat (bank (removed rd))) s1) (removed rd)
                 = Inr (scheduler c')"
    by blast
  from assms(2) have si: "sched_inv (scheduler c)" by (simp add: ctrl_inv_def)
  note r1 = reread_inv [OF si, of "scanned rd" "unat (of_nat i :: Bank)"]
  from get_next_inv [OF gn] get_next_buffers [OF gn] r1
  have s1: "sched_inv s1" "config_s s1 = config_s (scheduler c)" by simp_all
  from sc have "sched_inv (scheduler c') \<and> config_s (scheduler c') = config_s (scheduler c)"
  proof
    assume "scheduler c' = s1"
    with s1 show ?thesis by simp
  next
    assume rm: "remove (reread (rescanned rd) (unat (bank (removed rd))) s1) (removed rd)
                 = Inr (scheduler c')"
    note r2 = reread_inv [OF s1(1), of "rescanned rd" "unat (bank (removed rd))"]
    from remove_inv [OF rm] r2 s1(2) show ?thesis by simp
  qed
  with assms(2) cf ln show ?thesis by (simp add: ctrl_inv_def)
qed

lemma commands_of_append: "commands_of (ev1 @ ev2) = commands_of ev1 @ commands_of ev2"
  by (induction ev1 rule: commands_of.induct) simp_all

lemma issue_loop_inv:
  "issue_loop env idxs c = Inr (c', ev) \<Longrightarrow> ctrl_inv cfg c \<Longrightarrow> ctrl_inv cfg c'"
proof (induction idxs arbitrary: c ev)
  case Nil
  then show ?case by simp
next
  case (Cons i idxs)
  from Cons.prems(1) obtain c1 ev1 ev2 where
    a: "issue_bank (env i) i c = Inr (c1, ev1)" and b: "issue_loop env idxs c1 = Inr (c', ev2)"
    by (auto split: sum.splits)
  from Cons.IH [OF b issue_bank_inv [OF a Cons.prems(2)]] show ?case .
qed

lemma issue_loop_commands:
  "issue_loop env idxs c = Inr (c', ev) \<Longrightarrow>
     length (banks c') = length (banks c)
     \<and> set (map fst (commands_of ev)) \<subseteq> set idxs
     \<and> (distinct idxs \<longrightarrow> distinct (map fst (commands_of ev)))
     \<and> length (commands_of ev) \<le> length idxs
     \<and> REF \<notin> set (map snd (commands_of ev))"
proof (induction idxs arbitrary: c ev)
  case Nil
  then show ?case by simp
next
  case (Cons i idxs)
  from Cons.prems obtain c1 ev1 ev2 where
    a: "issue_bank (env i) i c = Inr (c1, ev1)" and b: "issue_loop env idxs c1 = Inr (c', ev2)"
    and ev: "ev = ev1 @ ev2"
    by (auto split: sum.splits)
  from issue_bank_proj [OF a] have
    l1: "length (banks c1) = length (banks c)"
    and e1: "commands_of ev1 = [] \<or> (\<exists>cmd. commands_of ev1 = [(i, cmd)] \<and> cmd \<noteq> REF)"
    by simp_all
  note ih = Cons.IH [OF b]
  from e1 show ?case
  proof
    assume "commands_of ev1 = []"
    with ih l1 ev show ?thesis by (auto simp: commands_of_append)
  next
    assume "\<exists>cmd. commands_of ev1 = [(i, cmd)] \<and> cmd \<noteq> REF"
    then obtain cmd where "commands_of ev1 = [(i, cmd)]" "cmd \<noteq> REF" by blast
    with ih l1 ev show ?thesis by (auto simp: commands_of_append)
  qed
qed

lemma tick_proj:
  assumes "tick env c = Inr (c', ev)"
  shows "issue_commands env (update_bank_states (c\<lparr>current_cycle := current_cycle c + 1\<rparr>))
           = Inr (c', ev)"
  using assms
  by (auto simp: tick_def Let_def complete_transfers_def check_timing_invariants_def
           split: sum.splits)

lemma ctrl_inv_new: "ctrl_inv cfg (CycleAccurateLPDDR5Controller_new cfg)"
  by (simp add: ctrl_inv_def CycleAccurateLPDDR5Controller_new_def Let_def nbanks_def
        sched_inv_new)
     (simp add: FrFcfsScheduler_new_def)

lemma tick_inv:
  assumes "tick env c = Inr (c', ev)" and "ctrl_inv cfg c"
  shows "ctrl_inv cfg c'"
proof -
  let ?c2 = "update_bank_states (c\<lparr>current_cycle := current_cycle c + 1\<rparr>)"
  from assms(2) have "ctrl_inv cfg ?c2"
    by (simp add: ctrl_inv_def update_bank_states_def)
  with tick_proj [OF assms(1)] show ?thesis
    unfolding issue_commands_def by (rule issue_loop_inv)
qed

lemma submit_inv:
  assumes "submit c r = Inr (res, c')" and "ctrl_inv cfg c"
  shows "ctrl_inv cfg c'"
proof (cases "has_space (scheduler c) 1")
  case False
  with assms show ?thesis by (simp add: submit_def)
next
  case True
  with assms(1) obtain s' r' where st: "store (scheduler c) r' = Inr s'"
    and c': "c' = c\<lparr>next_id := next_id c + 1, scheduler := s'\<rparr>"
    by (auto simp: submit_def Let_def split: sum.splits)
  from assms(2) have "sched_inv (scheduler c)" by (simp add: ctrl_inv_def)
  from store_inv [OF st this True] assms(2) show ?thesis
    by (simp add: c' ctrl_inv_def)
qed

lemma step_inv:
  assumes "step call c = Inr (c', ev)" and "ctrl_inv cfg c"
  shows "ctrl_inv cfg c'"
proof (cases call)
  case (Submit r)
  with assms(1) obtain res where "submit c r = Inr (res, c')"
    by (auto split: sum.splits)
  from submit_inv [OF this assms(2)] show ?thesis .
next
  case (Tick env)
  with assms(1) have "tick env c = Inr (c', ev)" by simp
  from tick_inv [OF this assms(2)] show ?thesis .
next
  case Reset
  with assms show ?thesis by (auto simp: reset_def ctrl_inv_def)
next
  case (SetCycle cy)
  with assms show ?thesis by (auto simp: set_cycle_def ctrl_inv_def)
next
  case ResetStats
  with assms show ?thesis by (auto simp: reset_stats_def ctrl_inv_def)
next
  case (EnableInvariants e)
  with assms show ?thesis by (auto simp: enable_invariants_def ctrl_inv_def)
qed

lemma reachable_inv: "reachable cfg c \<Longrightarrow> ctrl_inv cfg c"
proof (induction rule: reachable.induct)
  case reachable_new
  show ?case by (rule ctrl_inv_new)
next
  case (reachable_step c call c' ev)
  from step_inv [OF reachable_step.hyps(2) reachable_step.IH] show ?case .
qed

section \<open>Lemmas on \<open>submit\<close>\<close>

lemma decode_address_eq:
  "decode_address cfg r =
     r\<lparr>column := ucast (address r AND 1023),
       bank := ucast (drop_bit 10 (address r)
                        AND (ucast (banks_per_rank (organization cfg)) - 1)),
       row := ucast (drop_bit 14 (address r) AND 65535),
       channel := ucast (drop_bit 30 (address r)
                           AND (ucast (num_channels (organization cfg)) - 1))\<rparr>"
  by (simp add: decode_address_def Let_def drop_bit_drop_bit)

lemma decoded_rows_consistent:
  assumes "\<forall>p\<in>set q. row p = row (decode_address cfg p)"
  shows "\<forall>p\<in>set q. \<forall>p'\<in>set q. address p = address p' \<longrightarrow> row p = row p'"
proof (intro ballI impI)
  fix p p' assume "p \<in> set q" "p' \<in> set q" "address p = address p'"
  with assms have "row p = row (decode_address cfg p)" "row p' = row (decode_address cfg p')"
    "address p = address p'" by simp_all
  then show "row p = row p'" by (simp add: decode_address_eq)
qed

lemma submit_bank_in_range:
  assumes inv: "ctrl_inv cfg c" and wf: "wf_config cfg"
  shows "unat (bank (decode_address cfg r)) < length (buffers (scheduler c))
       \<and> unat (bank (decode_address cfg r)) < unat (banks_per_rank (organization cfg))"
proof -
  from wf have pos: "0 < unat (banks_per_rank (organization cfg))"
    and nch: "0 < unat (num_channels (organization cfg))" and n: "nbanks cfg < 256"
    by (simp_all add: wf_config_def)
  from decode_bank_bound [OF pos, of "drop_bit 10 (address r)"]
  have b: "unat (bank (decode_address cfg r)) < unat (banks_per_rank (organization cfg))"
    by (simp add: decode_address_eq)
  from nch have "unat (banks_per_rank (organization cfg)) \<le> nbanks cfg"
    by (simp add: nbanks_def)
  moreover from inv n have "length (buffers (scheduler c)) = nbanks cfg"
    by (simp add: ctrl_inv_def sched_inv_def unat_of_nat_8)
  ultimately show ?thesis using b by simp
qed


lemma submit_with_space:
  assumes inv: "ctrl_inv cfg c" and sp: "has_space (scheduler c) 1"
  shows "submit c request =
           (let r' = decode_address cfg (request\<lparr>req_id := next_id c,
                                                   submit_cycle := current_cycle c\<rparr>);
                b = unat (bank r');
                s = scheduler c
            in if b < length (buffers s)
               then Inr (Some (next_id c),
                         c\<lparr>next_id := next_id c + 1,
                           scheduler :=
                             s\<lparr>buffers := (buffers s)[b := buffers s ! b @ [r']],
                               buffer_depths := (buffer_depths s)[b := buffer_depths s ! b + 1],
                               total_occupancy := total_occupancy s + 1\<rparr>\<rparr>)
               else Inl VectorIndexOutOfRange)"
proof -
  from inv have cf: "config c = cfg" by (simp add: ctrl_inv_def)
  from inv have "length (buffer_depths (scheduler c)) = length (buffers (scheduler c))"
    by (simp add: ctrl_inv_def sched_inv_def)
  with sp cf show ?thesis
    by (simp add: submit_def store_def Let_def decode_address_eq)
qed

section \<open>Lemmas on the controller\<close>

lemma run_reachable:
  "reachable cfg c \<Longrightarrow> run calls c = Inr (c', ev) \<Longrightarrow> reachable cfg c'"
proof (induction calls arbitrary: c ev)
  case Nil
  then show ?case by simp
next
  case (Cons call calls)
  from Cons.prems(2) obtain c1 ev1 ev2 where
    a: "step call c = Inr (c1, ev1)" and b: "run calls c1 = Inr (c', ev2)"
    by (auto split: sum.splits)
  from reachable_step [OF Cons.prems(1) a] have "reachable cfg c1" .
  from Cons.IH [OF this b] show ?case .
qed

lemma wf_config_default: "wf_config ControllerConfig_default"
  by (simp add: wf_config_def nbanks_def ControllerConfig_default_def
        OrganizationParams_default_def banks_per_rank_def)

lemma issue_bank_frame:
  assumes "issue_bank rd j c = Inr (c1, ev1)"
  shows "\<forall>i. i \<noteq> j \<longrightarrow> banks c1 ! i = banks c ! i"
  using assms
  by (auto simp: issue_bank_def issue_row_hit_def Let_def
           split: if_splits sum.splits option.splits prod.splits)

lemma issue_bank_rd:
  assumes "issue_bank rd i c = Inr (c', ev)" and "(i, RD) \<in> set (commands_of ev)"
  shows "state (banks c ! i) = ACTIVE
       \<and> row (selected rd) = open_row (banks c ! i)
       \<and> req_type (selected rd) = READ
       \<and> next_rd (banks c ! i) \<le> current_cycle c
       \<and> banks c' ! i = latch_rd (timing (config c)) (current_cycle c) (banks c ! i)"
  using assms
  by (auto simp: issue_bank_def issue_row_hit_def is_ready_for_def Let_def
           split: if_splits sum.splits option.splits prod.splits)

lemma issue_loop_frame:
  "issue_loop env idxs c = Inr (c', ev) \<Longrightarrow>
     current_cycle c' = current_cycle c \<and> config c' = config c
     \<and> (\<forall>i. i \<notin> set idxs \<longrightarrow> banks c' ! i = banks c ! i)"
proof (induction idxs arbitrary: c ev)
  case Nil
  then show ?case by simp
next
  case (Cons j idxs)
  from Cons.prems obtain c1 ev1 ev2 where
    a: "issue_bank (env j) j c = Inr (c1, ev1)" and b: "issue_loop env idxs c1 = Inr (c', ev2)"
    by (auto split: sum.splits)
  from issue_bank_frame [OF a] issue_bank_proj [OF a] Cons.IH [OF b]
  show ?case by simp
qed

lemma issue_loop_rd:
  "distinct idxs \<Longrightarrow> issue_loop env idxs c = Inr (c', ev) \<Longrightarrow> (i, RD) \<in> set (commands_of ev)
     \<Longrightarrow> state (banks c ! i) = ACTIVE
         \<and> row (selected (env i)) = open_row (banks c ! i)
         \<and> req_type (selected (env i)) = READ
         \<and> next_rd (banks c ! i) \<le> current_cycle c
         \<and> banks c' ! i = latch_rd (timing (config c)) (current_cycle c) (banks c ! i)"
proof (induction idxs arbitrary: c ev)
  case Nil
  then show ?case by simp
next
  case (Cons j idxs)
  from Cons.prems(2) obtain c1 ev1 ev2 where
    a: "issue_bank (env j) j c = Inr (c1, ev1)" and b: "issue_loop env idxs c1 = Inr (c', ev2)"
    and ev: "ev = ev1 @ ev2"
    by (auto split: sum.splits)
  from Cons.prems(1) have dj: "j \<notin> set idxs" and di: "distinct idxs" by simp_all
  from Cons.prems(3) ev have "(i, RD) \<in> set (commands_of ev1) \<or> (i, RD) \<in> set (commands_of ev2)"
    by (simp add: commands_of_append)
  then show ?case
  proof
    assume in1: "(i, RD) \<in> set (commands_of ev1)"
    with issue_bank_proj [OF a] have ij: "i = j" by auto
    note rd = issue_bank_rd [OF a [folded ij] in1]
    moreover from issue_loop_frame [OF b] dj ij have "banks c' ! i = banks c1 ! i" by simp
    ultimately show ?thesis by simp
  next
    assume in2: "(i, RD) \<in> set (commands_of ev2)"
    then have "i \<in> set (map fst (commands_of ev2))" by force
    with issue_loop_commands [OF b] have "i \<in> set idxs" by blast
    with dj have ij: "i \<noteq> j" by blast
    note ih = Cons.IH [OF di b in2]
    with issue_bank_frame [OF a] issue_bank_proj [OF a] ij show ?thesis by simp
  qed
qed

lemma issue_bank_stats:
  assumes "issue_bank rd i c = Inr (c', ev)"
    and "page_hits (stats c) = 2 * (reads (stats c) + writes (stats c))"
    and "page_empty (stats c) = 0"
  shows "page_hits (stats c') = 2 * (reads (stats c') + writes (stats c'))
       \<and> page_empty (stats c') = 0"
  using assms
  by (auto simp: issue_bank_def issue_row_hit_def record_request_def Let_def algebra_simps
           split: if_splits sum.splits option.splits prod.splits)

lemma issue_loop_stats:
  "issue_loop env idxs c = Inr (c', ev) \<Longrightarrow>
     page_hits (stats c) = 2 * (reads (stats c) + writes (stats c)) \<Longrightarrow>
     page_empty (stats c) = 0 \<Longrightarrow>
     page_hits (stats c') = 2 * (reads (stats c') + writes (stats c'))
     \<and> page_empty (stats c') = 0"
proof (induction idxs arbitrary: c ev)
  case Nil
  then show ?case by simp
next
  case (Cons j idxs)
  from Cons.prems(1) obtain c1 ev1 ev2 where
    a: "issue_bank (env j) j c = Inr (c1, ev1)" and b: "issue_loop env idxs c1 = Inr (c', ev2)"
    by (auto split: sum.splits)
  from issue_bank_stats [OF a Cons.prems(2,3)] Cons.IH [OF b] show ?case by simp
qed

lemma step_stats:
  assumes "step call c = Inr (c', ev)"
    and "page_hits (stats c) = 2 * (reads (stats c) + writes (stats c))"
    and "page_empty (stats c) = 0"
  shows "page_hits (stats c') = 2 * (reads (stats c') + writes (stats c'))
       \<and> page_empty (stats c') = 0"
proof (cases call)
  case (Submit r)
  with assms show ?thesis
    by (auto simp: submit_def Let_def split: sum.splits if_splits)
next
  case (Tick env)
  let ?c2 = "update_bank_states (c\<lparr>current_cycle := current_cycle c + 1\<rparr>)"
  from Tick assms(1) have "tick env c = Inr (c', ev)" by simp
  from tick_proj [OF this] have "issue_loop env [0..<length (banks ?c2)] ?c2 = Inr (c', ev)"
    by (simp add: issue_commands_def)
  from issue_loop_stats [OF this] assms(2,3) show ?thesis
    by (simp add: update_bank_states_def)
next
  case Reset
  with assms show ?thesis by (auto simp: reset_def Statistics_reset_def)
next
  case (SetCycle cy)
  with assms show ?thesis by (auto simp: set_cycle_def)
next
  case ResetStats
  with assms show ?thesis by (auto simp: reset_stats_def Statistics_reset_def)
next
  case (EnableInvariants e)
  with assms show ?thesis by (auto simp: enable_invariants_def)
qed

lemma submit_out_of_range:
  "submit (CycleAccurateLPDDR5Controller_new sixteen_by_sixteen_config)
          (read_request 0 64 None) = Inl VectorIndexOutOfRange"
  by code_simp

section \<open>Scheduler claims\<close>

text \<open>
  C4. FR-FCFS selection. For a bank whose queue is not empty, \<open>get_next\<close> returns a
  request. With an open row that some queued request is on, it is the first request in
  arrival order on that row (every request before it is on another row); with an open row
  nobody is on, or with no open row, it is the oldest request of the queue.
\<close>

theorem fr_fcfs_get_next_selects:
  assumes inb: "unat bk < length (buffers s)"
    and ne: "buffers s ! unat bk \<noteq> []"
  shows "\<exists>req s'. get_next s bk orow last_cmd = Inr (Some req, s') \<and>
           (case orow of
              None \<Rightarrow> req = hd (buffers s ! unat bk)
            | Some r \<Rightarrow>
                if \<exists>q\<in>set (buffers s ! unat bk). row q = r
                then \<exists>pre post. buffers s ! unat bk = pre @ req # post \<and> row req = r
                       \<and> (\<forall>p\<in>set pre. row p \<noteq> r)
                else req = hd (buffers s ! unat bk))"
proof (cases orow)
  case None
  with inb ne show ?thesis by (simp add: get_next_def)
next
  case (Some r)
  show ?thesis
  proof (cases "first_row_hit r (buffers s ! unat bk)")
    case None
    then have "\<not> (\<exists>q\<in>set (buffers s ! unat bk). row q = r)"
      by (simp add: first_row_hit_None)
    with None Some inb ne show ?thesis by (simp add: get_next_def)
  next
    case (Some q)
    from first_row_hit_Some [OF this] obtain pre post
      where sp: "buffers s ! unat bk = pre @ q # post" "row q = r" "\<forall>p\<in>set pre. row p \<noteq> r"
      by blast
    then have ex: "\<exists>q\<in>set (buffers s ! unat bk). row q = r" by auto
    from Some \<open>orow = Some r\<close> inb ne
    have "get_next s bk orow last_cmd =
            Inr (Some q, s\<lparr>requests_selected := requests_selected s + 1,
                           row_hits := row_hits s + 1\<rparr>)"
      by (simp add: get_next_def)
    with sp ex \<open>orow = Some r\<close> show ?thesis by auto
  qed
qed

text \<open>
  At \<open>example_sched\<close> with row 9 open, the third request (the only one on row 9) is
  returned, past two older requests.
\<close>

theorem fr_fcfs_get_next_selects_witness:
  "unat (0 :: Bank) < length (buffers example_sched)
   \<and> buffers example_sched ! unat (0 :: Bank) \<noteq> []
   \<and> (\<exists>req s'. get_next example_sched 0 (Some 9) READ = Inr (Some req, s')
         \<and> req = example_request 3 128 READ 9
         \<and> (\<exists>pre post. buffers example_sched ! unat (0 :: Bank) = pre @ req # post
               \<and> row req = 9 \<and> (\<forall>p\<in>set pre. row p \<noteq> 9)))"
proof -
  have h1: "unat (0 :: Bank) < length (buffers example_sched)"
    by (simp add: example_sched_def)
  have h2: "buffers example_sched ! unat (0 :: Bank) \<noteq> []"
    by (simp add: example_sched_def example_queue_def)
  have h3: "\<exists>q\<in>set (buffers example_sched ! unat (0 :: Bank)). row q = 9"
    by (simp add: example_sched_def example_queue_def example_request_def)
  have ev: "get_next example_sched 0 (Some 9) READ
      = Inr (Some (example_request 3 128 READ 9),
             example_sched\<lparr>requests_selected := 1, row_hits := 1\<rparr>)"
    by (simp add: get_next_def example_sched_def example_queue_def example_request_def
          Request_default_def)
  from fr_fcfs_get_next_selects [OF h1 h2, of "Some 9" READ] h3 ev h1 h2
  show ?thesis by auto
qed

text \<open>
  C5. FR-FCFS-GRP and same-address hazards. The requests of a queue carry the row decoded
  from their address, so requests to one address are on one row (lemma
  \<open>decoded_rows_consistent\<close>). In every such queue, the request \<open>grp_get_next\<close> returns
  stands in the queue with no request to its address before it: a request is never selected
  past an earlier queued request to the same address.
\<close>

theorem grp_get_next_hazard_free:
  assumes inb: "unat bk < length (grp_buffers s)"
    and cons: "\<forall>p\<in>set (grp_buffers s ! unat bk). \<forall>q\<in>set (grp_buffers s ! unat bk).
                 address p = address q \<longrightarrow> row p = row q"
    and res: "grp_get_next s bk orow last_cmd = Inr (Some req, s')"
  shows "\<exists>pre post. grp_buffers s ! unat bk = pre @ req # post
           \<and> (\<forall>p\<in>set pre. address p \<noteq> address req)"
proof -
  define buffer where "buffer = grp_buffers s ! unat bk"
  have ne: "buffer \<noteq> []"
    using res inb by (auto simp: grp_get_next_def buffer_def Let_def)
  have front: "\<exists>pre post. buffer = pre @ hd buffer # post
           \<and> (\<forall>p\<in>set pre. address p \<noteq> address (hd buffer))"
  proof -
    from ne have "buffer = [] @ hd buffer # tl buffer" by simp
    then show ?thesis by (metis empty_iff list.set(1))
  qed
  show ?thesis
  proof (cases orow)
    case None
    with res inb ne have "req = hd buffer"
      by (auto simp: grp_get_next_def buffer_def Let_def)
    with front show ?thesis by (simp add: buffer_def)
  next
    case (Some r)
    define hits where "hits = filter (\<lambda>q. row q = r) buffer"
    show ?thesis
    proof (cases "hits = []")
      case True
      with res inb ne Some have "req = hd buffer"
        by (auto simp: grp_get_next_def buffer_def Let_def hits_def row_hits_of_filter)
      with front show ?thesis by (simp add: buffer_def)
    next
      case False
      have "\<exists>h1 h2. hits = h1 @ req # h2 \<and> (\<forall>p\<in>set h1. address p \<noteq> address req)"
      proof (cases "same_type_hit (grp_last_command s) [] hits")
        case None
        with res inb ne Some False have "req = hd hits"
          by (auto simp: grp_get_next_def buffer_def Let_def hits_def row_hits_of_filter)
        with False have "hits = [] @ req # tl hits" by simp
        then show ?thesis by (metis empty_iff list.set(1))
      next
        case (Some q)
        with res inb ne \<open>orow = Some r\<close> False have "req = q"
          by (auto simp: grp_get_next_def buffer_def Let_def hits_def row_hits_of_filter)
        with same_type_hit_Some [OF Some] show ?thesis
          by (auto simp: has_address_hazard_iff)
      qed
      then obtain h1 h2 where h: "hits = h1 @ req # h2"
        and nh: "\<forall>p\<in>set h1. address p \<noteq> address req" by blast
      from filter_split_at [OF h [unfolded hits_def]] obtain pre post
        where sp: "buffer = pre @ req # post" and fp: "filter (\<lambda>q. row q = r) pre = h1"
          and rr: "row req = r" by blast
      have "\<forall>p\<in>set pre. address p \<noteq> address req"
      proof
        fix p assume p: "p \<in> set pre"
        show "address p \<noteq> address req"
        proof (cases "row p = r")
          case True
          with p fp have "p \<in> set h1" by auto
          with nh show ?thesis by blast
        next
          case False
          from p sp have "p \<in> set buffer" "req \<in> set buffer" by auto
          with cons have "address p = address req \<longrightarrow> row p = row req"
            unfolding buffer_def by blast
          with False rr show ?thesis by auto
        qed
      qed
      with sp show ?thesis unfolding buffer_def by blast
    qed
  qed
qed

text \<open>
  At \<open>example_grp\<close> with row 7 open and \<open>READ\<close> the last command, the read of
  address 64 is passed over (the write before it has its address) and the read of address
  192 is returned; the queue satisfies the hypothesis on rows.
\<close>

theorem grp_get_next_hazard_free_witness:
  "unat (0 :: Bank) < length (grp_buffers example_grp)
   \<and> grp_get_next example_grp 0 (Some 7) READ
        = Inr (Some (example_request 4 192 READ 7),
               example_grp\<lparr>grp_requests_selected := 1, grp_row_hits := 1,
                            grp_grouping_decisions := 1\<rparr>)
   \<and> (\<exists>pre post. grp_buffers example_grp ! unat (0 :: Bank)
                     = pre @ example_request 4 192 READ 7 # post
         \<and> (\<forall>p\<in>set pre. address p \<noteq> address (example_request 4 192 READ 7)))"
proof -
  have h1: "unat (0 :: Bank) < length (grp_buffers example_grp)"
    by (simp add: example_grp_def)
  have h2: "\<forall>p\<in>set (grp_buffers example_grp ! unat (0 :: Bank)).
        \<forall>q\<in>set (grp_buffers example_grp ! unat (0 :: Bank)).
          address p = address q \<longrightarrow> row p = row q"
    by (simp add: example_grp_def example_queue_def example_request_def)
  have h3: "grp_get_next example_grp 0 (Some 7) READ
        = Inr (Some (example_request 4 192 READ 7),
               example_grp\<lparr>grp_requests_selected := 1, grp_row_hits := 1,
                            grp_grouping_decisions := 1\<rparr>)"
    by (simp add: grp_get_next_def example_grp_def example_queue_def example_request_def
          Request_default_def)
  from grp_get_next_hazard_free [OF h1 h2 h3] h1 h2 h3 show ?thesis by blast
qed

text \<open>
  C10. In the FIFO, FR-FCFS and FR-FCFS-GRP schedulers, \<open>has_pending\<close> on a bank of the
  scheduler does not depend on the request type and is true exactly when the bank's queue
  holds at least two requests.
\<close>

theorem has_pending_needs_two:
  assumes "unat bk < length (fifo_buffers f)"
    and "unat bk < length (buffers s)"
    and "unat bk < length (grp_buffers g)"
  shows "fifo_has_pending f bk ty = Inr (2 \<le> length (fifo_buffers f ! unat bk))
       \<and> has_pending s bk ty = Inr (2 \<le> length (buffers s ! unat bk))
       \<and> grp_has_pending g bk ty = Inr (2 \<le> length (grp_buffers g ! unat bk))"
  using assms by (simp add: fifo_has_pending_def has_pending_def grp_has_pending_def)

text \<open>A FIFO bank with exactly one request reports no pending request, for both types.\<close>

theorem has_pending_needs_two_witness:
  "unat (0 :: Bank) < length (fifo_buffers example_fifo)
   \<and> unat (0 :: Bank) < length (buffers example_sched)
   \<and> unat (0 :: Bank) < length (grp_buffers example_grp)
   \<and> length (fifo_buffers example_fifo ! unat (0 :: Bank)) = 1
   \<and> fifo_has_pending example_fifo 0 READ = Inr False
   \<and> fifo_has_pending example_fifo 0 WRITE = Inr False
   \<and> has_pending example_sched 0 READ = Inr True
   \<and> grp_has_pending example_grp 0 WRITE = Inr True"
proof -
  have h1: "unat (0 :: Bank) < length (fifo_buffers example_fifo)"
    by (simp add: example_fifo_def)
  have h2: "unat (0 :: Bank) < length (buffers example_sched)"
    by (simp add: example_sched_def)
  have h3: "unat (0 :: Bank) < length (grp_buffers example_grp)"
    by (simp add: example_grp_def)
  have l1: "length (fifo_buffers example_fifo ! unat (0 :: Bank)) = 1"
    by (simp add: example_fifo_def)
  have l2: "length (buffers example_sched ! unat (0 :: Bank)) = 4"
    by (simp add: example_sched_def example_queue_def)
  have l3: "length (grp_buffers example_grp ! unat (0 :: Bank)) = 4"
    by (simp add: example_grp_def example_queue_def)
  from has_pending_needs_two [OF h1 h2 h3, of READ]
       has_pending_needs_two [OF h1 h2 h3, of WRITE] h1 h2 h3 l1 l2 l3
  show ?thesis by simp
qed

section \<open>Controller claims\<close>

text \<open>
  C1. One command per cycle on the command bus. The claim fails: the loop of
  \<open>issue_commands\<close> visits every bank in each tick and may latch a command for each, and
  nothing in the controller records that the bus is taken. With a read queued for bank 0
  and one for bank 1, the first tick issues an \<open>ACT\<close> to both, whatever is read through
  the queued pointers: banks 0 and 1 are \<open>ACTIVATING\<close> after it.
\<close>

theorem tick_two_commands_counterexample:
  "\<forall>env.
     (case run (two_bank_requests @ [Tick env])
             (CycleAccurateLPDDR5Controller_new ControllerConfig_default) of
        Inl f \<Rightarrow> False
      | Inr (c, ev) \<Rightarrow>
          commands_of ev = [(0, ACT), (1, ACT)] \<and> current_cycle c = 1
          \<and> map state (take 3 (banks c)) = [ACTIVATING, ACTIVATING, IDLE])"
  by (intro allI) code_simp

text \<open>
  C1, amended. For every state of the controller and every call of \<open>tick\<close> that
  returns, whatever is read through the queued pointers, the tick issues at most one
  command to each bank: the banks of its commands are distinct banks of the controller, so
  there are at most as many commands as banks. No \<open>REF\<close> is issued.
\<close>

theorem tick_commands_per_bank:
  assumes "tick env c = Inr (c', ev)"
  shows "distinct (map fst (commands_of ev))
       \<and> set (map fst (commands_of ev)) \<subseteq> {..<length (banks c)}
       \<and> length (commands_of ev) \<le> length (banks c)
       \<and> REF \<notin> set (map snd (commands_of ev))"
proof -
  let ?c2 = "update_bank_states (c\<lparr>current_cycle := current_cycle c + 1\<rparr>)"
  from tick_proj [OF assms] have lp: "issue_loop env [0..<length (banks ?c2)] ?c2 = Inr (c', ev)"
    by (simp add: issue_commands_def)
  have ln: "length (banks ?c2) = length (banks c)" by (simp add: update_bank_states_def)
  from issue_loop_commands [OF lp] ln show ?thesis by auto
qed

text \<open>
  In the state with reads queued for banks 0 and 1, the tick returns and issues two
  commands, to distinct banks, whatever is read.
\<close>

theorem tick_commands_per_bank_witness:
  "\<forall>env.
     (case run two_bank_requests (CycleAccurateLPDDR5Controller_new ControllerConfig_default) of
        Inl f \<Rightarrow> False
      | Inr (c, ev0) \<Rightarrow>
          (\<exists>c' ev. tick env c = Inr (c', ev)
             \<and> commands_of ev = [(0, ACT), (1, ACT)]
             \<and> distinct (map fst (commands_of ev))
             \<and> length (commands_of ev) \<le> length (banks c)))"
proof
  fix env
  let ?c0 = "CycleAccurateLPDDR5Controller_new ControllerConfig_default"
  have e: "(case run two_bank_requests ?c0 of
      Inl f \<Rightarrow> False
    | Inr (c, ev0) \<Rightarrow>
        (case tick env c of Inl f \<Rightarrow> False
         | Inr (c', ev) \<Rightarrow> commands_of ev = [(0, ACT), (1, ACT)]))"
    by code_simp
  then obtain c ev0 c' ev where r: "run two_bank_requests ?c0 = Inr (c, ev0)"
    and tk: "tick env c = Inr (c', ev)" and cm: "commands_of ev = [(0, ACT), (1, ACT)]"
    by (auto split: sum.splits)
  from tick_commands_per_bank [OF tk] r tk cm
  show "(case run two_bank_requests ?c0 of
        Inl f \<Rightarrow> False
      | Inr (c, ev0) \<Rightarrow>
          (\<exists>c' ev. tick env c = Inr (c', ev)
             \<and> commands_of ev = [(0, ACT), (1, ACT)]
             \<and> distinct (map fst (commands_of ev))
             \<and> length (commands_of ev) \<le> length (banks c)))"
    by simp
qed

text \<open>
  C2. Latches of \<open>RD\<close>. The claim is not met on \<open>next_pre\<close>: the field is declared as
  the earliest cycle for \<open>PRE\<close> and gates the precharge branch, but no branch assigns it and
  \<open>tRTP\<close> is never read. Whenever a tick that returns issues \<open>RD\<close> to bank \<open>i\<close>, at
  the cycle \<open>now\<close> it has advanced to, whatever is read through the queued pointers: the
  bank was \<open>ACTIVE\<close> after the state update of that tick, the request read behind the
  selected pointer is a read on the open row, and the bank is left \<open>READING\<close> with
  \<open>state_until = now + tBurst\<close>, \<open>next_rd = now + tCCD_S\<close> and \<open>next_wr = now + tRTW\<close>,
  while \<open>next_pre\<close> (with \<open>open_row\<close> and \<open>next_act\<close>) keeps the value it had, not
  \<open>now + tRTP\<close>.
\<close>

theorem tick_rd_latches:
  assumes tk: "tick env c = Inr (c', ev)" and rd: "(i, RD) \<in> set (commands_of ev)"
  shows "(let now = current_cycle c + 1;
              t = timing (config c);
              b = update_bank now (banks c ! i)
          in i < length (banks c)
           \<and> current_cycle c' = now
           \<and> state b = ACTIVE
           \<and> row (selected (env i)) = open_row b
           \<and> req_type (selected (env i)) = READ
           \<and> next_rd b \<le> now
           \<and> banks c' ! i = b\<lparr>state := READING,
                                state_until := now + ucast (tBurst t),
                                next_rd := now + ucast (tCCD_S t),
                                next_wr := now + ucast (tRTW t)\<rparr>
           \<and> next_pre (banks c' ! i) = next_pre (banks c ! i))"
proof -
  let ?c2 = "update_bank_states (c\<lparr>current_cycle := current_cycle c + 1\<rparr>)"
  from tick_proj [OF tk] have lp: "issue_loop env [0..<length (banks ?c2)] ?c2 = Inr (c', ev)"
    by (simp add: issue_commands_def)
  from rd have "i \<in> set (map fst (commands_of ev))" by force
  with issue_loop_commands [OF lp] have "i \<in> set [0..<length (banks ?c2)]" by blast
  then have inb: "i < length (banks c)" by (simp add: update_bank_states_def)
  then have bi: "banks ?c2 ! i = update_bank (current_cycle c + 1) (banks c ! i)"
    by (simp add: update_bank_states_def)
  have np: "next_pre (update_bank now b) = next_pre b" for now b
    by (simp add: update_bank_def split: BankState.splits)
  from issue_loop_rd [OF _ lp rd] bi
  have "state (update_bank (current_cycle c + 1) (banks c ! i)) = ACTIVE"
    "row (selected (env i)) = open_row (update_bank (current_cycle c + 1) (banks c ! i))"
    "req_type (selected (env i)) = READ"
    "next_rd (update_bank (current_cycle c + 1) (banks c ! i)) \<le> current_cycle c + 1"
    "banks c' ! i = latch_rd (timing (config c)) (current_cycle c + 1)
                      (update_bank (current_cycle c + 1) (banks c ! i))"
    by (simp_all add: update_bank_states_def)
  moreover from issue_loop_frame [OF lp] have "current_cycle c' = current_cycle c + 1"
    by (simp add: update_bank_states_def)
  ultimately show ?thesis using inb np by (simp add: Let_def latch_rd_def)
qed

text \<open>
  A run in which every read finds the read of address 0 as it was stored: the fifteenth
  tick issues the \<open>RD\<close>, and \<open>next_pre\<close> is still 0.
\<close>

theorem tick_rd_latches_witness:
  "(case run (one_quiet_read @ replicate 14 (Tick (found_as stored_read)))
           (CycleAccurateLPDDR5Controller_new ControllerConfig_default) of
      Inl f \<Rightarrow> False
    | Inr (c, ev0) \<Rightarrow>
        (case tick (found_as stored_read) c of
           Inl f \<Rightarrow> False
         | Inr (c', ev) \<Rightarrow>
             (0, RD) \<in> set (commands_of ev)
             \<and> state (update_bank (current_cycle c + 1) (banks c ! 0)) = ACTIVE
             \<and> current_cycle c' = 15
             \<and> banks c' ! 0 = \<lparr>state = READING, open_row = 0, state_until = 23,
                                 next_act = 43, next_rd = 19, next_wr = 29, next_pre = 0\<rparr>))"
proof -
  let ?c0 = "CycleAccurateLPDDR5Controller_new ControllerConfig_default"
  have e: "(case run (one_quiet_read @ replicate 14 (Tick (found_as stored_read))) ?c0 of
      Inl f \<Rightarrow> False
    | Inr (c, ev0) \<Rightarrow>
        (case tick (found_as stored_read) c of
           Inl f \<Rightarrow> False
         | Inr (c', ev) \<Rightarrow>
             (0, RD) \<in> set (commands_of ev)
             \<and> current_cycle c = 14
             \<and> banks c' ! 0 = \<lparr>state = READING, open_row = 0, state_until = 23,
                                 next_act = 43, next_rd = 19, next_wr = 29, next_pre = 0\<rparr>))"
    by code_simp
  then obtain c ev0 c' ev
    where r: "run (one_quiet_read @ replicate 14 (Tick (found_as stored_read))) ?c0 = Inr (c, ev0)"
    and tk: "tick (found_as stored_read) c = Inr (c', ev)"
    and rd: "(0, RD) \<in> set (commands_of ev)"
    and cy: "current_cycle c = 14"
    by (auto split: sum.splits)
  from tick_rd_latches [OF tk rd] cy
  have "state (update_bank (current_cycle c + 1) (banks c ! 0)) = ACTIVE"
    "current_cycle c' = 15"
    by (simp_all add: Let_def)
  with e r tk show ?thesis by simp
qed

text \<open>
  C3. Page classification of completed requests. The claim is not met: the row-hit branch
  increments \<open>page_hits\<close> and then calls \<open>record_request\<close> with \<open>page_hit = true\<close>,
  which increments it again, and nothing counts \<open>page_empty\<close>. In every reachable state,
  whatever was read through the queued pointers, \<open>page_hits\<close> is twice \<open>reads + writes\<close>
  and \<open>page_empty\<close> is 0; so \<open>reads + writes\<close> and
  \<open>page_hits + page_empty + page_conflicts\<close> differ as soon as one request has completed.
\<close>

theorem completions_count_two_page_hits:
  assumes "reachable cfg c"
  shows "page_hits (stats c) = 2 * (reads (stats c) + writes (stats c))
       \<and> page_empty (stats c) = 0"
  using assms
proof (induction rule: reachable.induct)
  case reachable_new
  show ?case
    by (simp add: CycleAccurateLPDDR5Controller_new_def Let_def Statistics_reset_def)
next
  case (reachable_step c call c' ev)
  from step_stats [OF reachable_step.hyps(2)] reachable_step.IH show ?case by simp
qed

text \<open>
  A run in which every read finds the read of address 0 as it was stored: after a reset,
  the read and fifteen ticks, the read has completed, nothing is pending, and
  \<open>reads + writes = 1\<close> while \<open>page_hits = 2\<close>.
\<close>

theorem completions_count_two_page_hits_witness:
  "(case run (Reset # one_quiet_read @ replicate 15 (Tick (found_as stored_read)))
           (CycleAccurateLPDDR5Controller_new ControllerConfig_default) of
      Inl f \<Rightarrow> False
    | Inr (c, ev) \<Rightarrow>
        commands_of ev = [(0, ACT), (0, RD)]
        \<and> pending_count c = 0
        \<and> reads (stats c) = 1 \<and> writes (stats c) = 0
        \<and> page_hits (stats c) = 2 \<and> page_empty (stats c) = 0
        \<and> page_conflicts (stats c) = 0)"
proof -
  let ?c0 = "CycleAccurateLPDDR5Controller_new ControllerConfig_default"
  let ?calls = "Reset # one_quiet_read @ replicate 15 (Tick (found_as stored_read))"
  have e: "(case run ?calls ?c0 of
      Inl f \<Rightarrow> False
    | Inr (c, ev) \<Rightarrow>
        commands_of ev = [(0, ACT), (0, RD)]
        \<and> pending_count c = 0
        \<and> reads (stats c) = 1 \<and> writes (stats c) = 0
        \<and> page_conflicts (stats c) = 0)"
    by code_simp
  then obtain c ev where r: "run ?calls ?c0 = Inr (c, ev)"
    and rw: "reads (stats c) = 1" "writes (stats c) = 0"
    by (auto split: sum.splits)
  from run_reachable [OF reachable_new r]
  have "reachable ControllerConfig_default c" .
  from completions_count_two_page_hits [OF this] rw
  have "page_hits (stats c) = 2" "page_empty (stats c) = 0" by simp_all
  with e r show ?thesis by simp
qed

text \<open>
  C6. The behavioral controller. \<open>submit\<close> accepts every request, calls its callback
  (when it has one) exactly once before returning, with \<open>fixed_read_latency\<close> for a read
  and \<open>fixed_write_latency\<close> for a write, leaves nothing pending and does not move the
  cycle; \<open>tick\<close> only counts the cycle (no callback, statistics and id counter unchanged),
  and \<open>drain\<close> does nothing.
\<close>

theorem behavioral_submit_completes_inline:
  "fst (b_submit c r) = Some (b_next_id c)
   \<and> snd (snd (b_submit c r))
       = (case callback r of
            None \<Rightarrow> []
          | Some h \<Rightarrow>
              [(h, if req_type r = READ
                   then ucast (fixed_read_latency (timing (b_config c)))
                   else ucast (fixed_write_latency (timing (b_config c))))])
   \<and> b_current_cycle (fst (snd (b_submit c r))) = b_current_cycle c
   \<and> \<not> b_has_pending (fst (snd (b_submit c r)))
   \<and> b_pending_count (fst (snd (b_submit c r))) = 0
   \<and> snd (b_tick c) = []
   \<and> b_stats (fst (b_tick c)) = b_stats c
   \<and> b_next_id (fst (b_tick c)) = b_next_id c
   \<and> b_current_cycle (fst (b_tick c)) = b_current_cycle c + 1
   \<and> b_drain c = (c, [])"
  by (simp add: b_submit_def b_tick_def b_drain_def b_has_pending_def b_pending_count_def
        Let_def split: option.splits)

text \<open>
  With \<open>fixed_read_latency = 80\<close>, a read with callback 0 gives the one invocation
  \<open>(0, 80)\<close>; a write gives latency 100.
\<close>

theorem behavioral_submit_completes_inline_witness:
  "snd (snd (b_submit (BehavioralLPDDR5Controller_new latency_80_config)
                      (read_request 0 64 (Some 0)))) = [(0, 80)]
   \<and> snd (snd (b_submit (BehavioralLPDDR5Controller_new latency_80_config)
                        (write_request 0 64 (Some 5)))) = [(5, 100)]
   \<and> reads (b_stats (fst (snd (b_submit (BehavioralLPDDR5Controller_new latency_80_config)
                                       (read_request 0 64 (Some 0)))))) = 1
   \<and> snd (b_tick (BehavioralLPDDR5Controller_new latency_80_config)) = []"
  using behavioral_submit_completes_inline
          [of "BehavioralLPDDR5Controller_new latency_80_config" "read_request 0 64 (Some 0)"]
        behavioral_submit_completes_inline
          [of "BehavioralLPDDR5Controller_new latency_80_config" "write_request 0 64 (Some 5)"]
  by (simp add: BehavioralLPDDR5Controller_new_def latency_80_config_def
        ControllerConfig_default_def TimingParams_default_def read_request_def
        write_request_def Request_default_def b_submit_def Let_def Statistics_reset_def)




text \<open>
  C8. Invalid addresses. The claim fails: \<open>submit\<close> has no such outcome.
  \<open>decode_address\<close> masks each field out of the address and never compares the row with
  \<open>rows_per_bank\<close>. With 1024 rows per bank, a read whose address decodes to row 2000 is
  accepted and queued.
\<close>

theorem submit_row_beyond_rows_per_bank_counterexample:
  "(case submit (CycleAccurateLPDDR5Controller_new rows_1024_config)
                (read_request (push_bit 14 2000) 64 None) of
      Inr (Some i, c') \<Rightarrow>
        i = 1 \<and> pending_count c' = 1
        \<and> map row (buffers (scheduler c') ! 0) = [2000]
        \<and> rows_per_bank (organization (config c')) = 1024
    | _ \<Rightarrow> False)"
  by code_simp

text \<open>
  C8, amended. In every reachable state with space in the scheduler, \<open>submit\<close> decodes
  the request whatever its address (column: bits 0 to 9; bank: the bits from 10 masked with
  \<open>banks_per_rank - 1\<close>; row: bits 14 to 29; channel: the bits from 30 masked with
  \<open>num_channels - 1\<close>) and compares no field with a bound. When the decoded bank indexes
  the buffers of the scheduler, which it always does under \<open>wf_config\<close>, the request is
  accepted and appended to the queue of that bank; when it does not, the store indexes out
  of range (lemma \<open>submit_out_of_range\<close> is such a case). No outcome reports an invalid
  address.
\<close>

theorem submit_accepts_any_address:
  assumes "reachable cfg c" and "has_space (scheduler c) 1"
  shows "(let a = address request;
              org = organization cfg;
              r' = request\<lparr>req_id := next_id c,
                           submit_cycle := current_cycle c,
                           column := ucast (a AND 1023),
                           bank := ucast (drop_bit 10 a AND (ucast (banks_per_rank org) - 1)),
                           row := ucast (drop_bit 14 a AND 65535),
                           channel := ucast (drop_bit 30 a
                                               AND (ucast (num_channels org) - 1))\<rparr>;
              b = unat (bank r')
          in (wf_config cfg \<longrightarrow> b < length (buffers (scheduler c)))
           \<and> (if b < length (buffers (scheduler c))
               then \<exists>c'. submit c request = Inr (Some (next_id c), c')
                        \<and> buffers (scheduler c') ! b = buffers (scheduler c) ! b @ [r']
               else submit c request = Inl VectorIndexOutOfRange))"
proof -
  from reachable_inv [OF assms(1)] have inv: "ctrl_inv cfg c" .
  let ?r = "decode_address cfg (request\<lparr>req_id := next_id c, submit_cycle := current_cycle c\<rparr>)"
  have wf: "wf_config cfg \<longrightarrow> unat (bank ?r) < length (buffers (scheduler c))"
    using submit_bank_in_range [OF inv] by blast
  from wf submit_with_space [OF inv assms(2), of request] show ?thesis
    by (simp add: Let_def decode_address_eq)
qed

text \<open>The read of row 2000 under 1024 rows per bank.\<close>

theorem submit_accepts_any_address_witness:
  "has_space (scheduler (CycleAccurateLPDDR5Controller_new rows_1024_config)) 1
   \<and> (\<exists>c'. submit (CycleAccurateLPDDR5Controller_new rows_1024_config)
                  (read_request (push_bit 14 2000) 64 None) = Inr (Some 1, c')
          \<and> map row (buffers (scheduler c') ! 0) = [2000])"
proof -
  let ?c0 = "CycleAccurateLPDDR5Controller_new rows_1024_config"
  have sp: "has_space (scheduler ?c0) 1" by code_simp
  have e: "(case submit ?c0 (read_request (push_bit 14 2000) 64 None) of
      Inr (Some i, c') \<Rightarrow> i = 1 \<and> map row (buffers (scheduler c') ! 0) = [2000]
    | _ \<Rightarrow> False)"
    by code_simp
  from submit_accepts_any_address [OF reachable_new sp,
      of "read_request (push_bit 14 2000) 64 None"] e sp
  show ?thesis by (auto split: sum.splits option.splits)
qed

text \<open>
  C9. \<open>reset\<close>. The code zeroes the cycle, restarts the id counter, puts every bank in
  its default state (\<open>IDLE\<close>) and resets the statistics, but it leaves the scheduler as it
  is: after one accepted read and a reset, the read is still queued,
  \<open>pending_count\<close> is 1 and \<open>has_pending\<close> is true.
\<close>

theorem reset_keeps_scheduler:
  "(case run (one_read @ [Reset])
           (CycleAccurateLPDDR5Controller_new ControllerConfig_default) of
      Inl f \<Rightarrow> False
    | Inr (c, ev) \<Rightarrow>
        current_cycle c = 0 \<and> next_id c = 1
        \<and> list_all (\<lambda>b. state b = IDLE) (banks c)
        \<and> stats c = Statistics_reset
        \<and> pending_count c = 1 \<and> c_has_pending c
        \<and> map req_id (buffers (scheduler c) ! 0) = [1])"
  by code_simp

end
